theory Spec2Isabelle
  imports Main "HOL-Library.Word"
begin

section \<open>The chat server of \<^verbatim>\<open>server.c\<close>: data model\<close>

text \<open>
  The constants of \<^verbatim>\<open>server.c\<close>: \<^verbatim>\<open>MAX_CLIENTS\<close>, \<^verbatim>\<open>BUF_SIZE\<close> and \<^verbatim>\<open>NAME_LEN\<close>.
\<close>

definition MAX_CLIENTS :: nat where
  "MAX_CLIENTS = 128"

definition BUF_SIZE :: nat where
  "BUF_SIZE = 4096"

definition NAME_LEN :: nat where
  "NAME_LEN = 32"

type_synonym int64_t = "64 word"

text \<open>
  \<^verbatim>\<open>client_t\<close>: the fields \<^verbatim>\<open>fd\<close>, \<^verbatim>\<open>alive\<close>, \<^verbatim>\<open>id\<close> and \<^verbatim>\<open>name\<close> (prefixed here,
  since the functions have parameters called \<^verbatim>\<open>fd\<close> and \<^verbatim>\<open>id\<close>). \<^verbatim>\<open>alive\<close> only ever
  holds 0 or 1 and is only tested for truth. \<^verbatim>\<open>name\<close> is the C string held in the
  array \<^verbatim>\<open>char name[NAME_LEN]\<close>: its bytes before the terminating NUL. The
  \<^verbatim>\<open>pthread_t\<close> field plays no part in what follows.
\<close>

record client_t =
  c_fd :: int
  c_alive :: bool
  c_id :: int64_t
  c_name :: string

text \<open>
  The stream a \<^verbatim>\<open>FILE *\<close> points to: open, or closed by \<^verbatim>\<open>fclose\<close>. A pointer to a
  closed stream keeps its value and still tests as non-null, and every use of it is
  undefined behaviour.
\<close>

datatype stream = Stream_open | Stream_closed

text \<open>
  The globals: the table \<^verbatim>\<open>clients\<close>, \<^verbatim>\<open>next_id\<close>, \<^verbatim>\<open>listen_fd\<close>, and \<^verbatim>\<open>logf\<close>:
  \<open>None\<close> for the null pointer, otherwise the state of the stream it points to.
\<close>

record server =
  clients :: "client_t list"
  next_id :: int64_t
  listen_fd :: int
  logf :: "stream option"

text \<open>
  What the server does to the outside world, in order: \<^verbatim>\<open>send\<close> of bytes on a
  descriptor, the call \<^verbatim>\<open>close\<close> on a descriptor, a record written by \<^verbatim>\<open>log_event\<close>
  to the open log (without its timestamp), \<^verbatim>\<open>fclose\<close> of the open log, and
  \<open>Use_after_fclose\<close>: a call of \<^verbatim>\<open>fprintf\<close>, \<^verbatim>\<open>fflush\<close> or \<^verbatim>\<open>fclose\<close> on the log
  after it was closed. That call has undefined behaviour: no record is promised, the
  process may abort, and nothing that follows it in a list of events is defined.
\<close>

datatype event = Send int string | Close int | Log string | Fclose | Use_after_fclose

text \<open>
  The table after \<^verbatim>\<open>memset(clients, 0, sizeof(clients))\<close> and the initial globals;
  \<open>lg\<close> tells whether \<^verbatim>\<open>fopen("server.log", "a")\<close> succeeded.
\<close>

definition zero_client :: client_t where
  "zero_client = \<lparr>c_fd = 0, c_alive = False, c_id = 0, c_name = []\<rparr>"

definition init_server :: "int \<Rightarrow> bool \<Rightarrow> server" where
  "init_server lfd lg =
     \<lparr>clients = replicate MAX_CLIENTS zero_client, next_id = 1, listen_fd = lfd,
      logf = (if lg then Some Stream_open else None)\<rparr>"

section \<open>C library calls\<close>

definition digit_char :: "nat \<Rightarrow> char" where
  "digit_char d = ''0123456789'' ! d"

fun dec_nat :: "nat \<Rightarrow> string" where
  "dec_nat n = (if n < 10 then [digit_char n] else dec_nat (n div 10) @ [digit_char (n mod 10)])"

declare dec_nat.simps [simp del]

text \<open>The conversion \<^verbatim>\<open>"%" PRId64\<close>: signed decimal.\<close>

definition fmt_d64 :: "int64_t \<Rightarrow> string" where
  "fmt_d64 w = (if sint w < 0 then CHR ''-'' # dec_nat (nat (- sint w)) else dec_nat (nat (sint w)))"

text \<open>
  \<^verbatim>\<open>snprintf(buf, size, ...)\<close> with \<open>0 < size\<close>, where \<open>text\<close> is the fully formatted
  output: at most \<open>size - 1\<close> bytes are stored.
\<close>

definition snprintf :: "nat \<Rightarrow> string \<Rightarrow> string" where
  "snprintf sz text = take (sz - 1) text"

text \<open>
  \<^verbatim>\<open>pos += snprintf(out + pos, size - pos, ...)\<close> on a buffer holding the C string
  \<open>out\<close>: the new content of the buffer and the new \<open>pos\<close> (the return value is the
  length of the untruncated text). The subtraction is the one of \<^verbatim>\<open>size_t\<close> only
  while \<open>pos < size\<close>; \<open>list_users_pos_bound\<close> below shows that this is so at each call.
\<close>

definition snprintf_at :: "string \<Rightarrow> nat \<Rightarrow> nat \<Rightarrow> string \<Rightarrow> string \<times> nat" where
  "snprintf_at out pos sz text = (take pos out @ take (sz - pos - 1) text, pos + length text)"

text \<open>A received buffer read as a C string: the bytes before the first NUL.\<close>

definition cstr :: "string \<Rightarrow> string" where
  "cstr bs = takeWhile (\<lambda>c. c \<noteq> CHR 0x00) bs"

text \<open>\<^verbatim>\<open>strncmp(a, b, n) == 0\<close> on C strings.\<close>

definition strncmp_eq :: "string \<Rightarrow> string \<Rightarrow> nat \<Rightarrow> bool" where
  "strncmp_eq a b n = (take n a = take n b)"

definition isspace :: "char \<Rightarrow> bool" where
  "isspace c = (c = CHR '' '' \<or> c = CHR 0x09 \<or> c = CHR ''\<newline>'' \<or> c = CHR 0x0B
                \<or> c = CHR 0x0C \<or> c = CHR 0x0D)"

definition isdigit :: "char \<Rightarrow> bool" where
  "isdigit c = (c \<in> set ''0123456789'')"

definition digit_val :: "char \<Rightarrow> nat" where
  "digit_val c = of_char c - 48"

definition dec_val :: "string \<Rightarrow> nat" where
  "dec_val ds = foldl (\<lambda>acc c. acc * 10 + digit_val c) 0 ds"

text \<open>
  \<^verbatim>\<open>atoll\<close> as the C library of the target implements it (\<^verbatim>\<open>strtoll(p, NULL, 10)\<close>):
  leading white space is skipped, one sign is accepted, the longest run of digits is
  converted, no digit gives 0, and a value out of range is clamped to the nearest
  bound of \<^verbatim>\<open>long long\<close>.
\<close>

definition skip_sign :: "string \<Rightarrow> string" where
  "skip_sign p = (if p \<noteq> [] \<and> (hd p = CHR ''-'' \<or> hd p = CHR ''+'') then tl p else p)"

definition atoll :: "string \<Rightarrow> int64_t" where
  "atoll p =
     (let p1 = dropWhile isspace p;
          neg = (p1 \<noteq> [] \<and> hd p1 = CHR ''-'');
          v = int (dec_val (takeWhile isdigit (skip_sign p1)));
          r = (if neg then - v else v)
      in word_of_int (max (- (2 ^ 63)) (min (2 ^ 63 - 1) r)))"

section \<open>Logging and sending\<close>

text \<open>
  \<^verbatim>\<open>log_event\<close>: nothing when \<^verbatim>\<open>logf\<close> is null; otherwise \<^verbatim>\<open>fprintf\<close> and
  \<^verbatim>\<open>fflush\<close> on the stream.
\<close>

definition log_event :: "server \<Rightarrow> string \<Rightarrow> event list" where
  "log_event s msg =
     (case logf s of None \<Rightarrow> [] | Some Stream_open \<Rightarrow> [Log msg] | Some Stream_closed \<Rightarrow> [Use_after_fclose])"

text \<open>
  \<^verbatim>\<open>fclose(logf)\<close> on a non-null \<^verbatim>\<open>logf\<close>. The variable keeps its value; the stream
  is closed from then on.
\<close>

definition fclose_logf :: "server \<Rightarrow> server \<times> event list" where
  "fclose_logf s =
     (case logf s of
        Some Stream_open \<Rightarrow> (s\<lparr>logf := Some Stream_closed\<rparr>, [Fclose])
      | _ \<Rightarrow> (s, [Use_after_fclose]))"

text \<open>
  \<^verbatim>\<open>send_all\<close>: the loop calls \<^verbatim>\<open>send\<close> until \<open>len\<close> bytes are out, so nothing at all
  for \<open>len = 0\<close>. The event stands for the bytes handed to the transport.
\<close>

definition send_all :: "int \<Rightarrow> string \<Rightarrow> event list" where
  "send_all fd buf = (if buf = [] then [] else [Send fd buf])"

definition send_str :: "int \<Rightarrow> string \<Rightarrow> event list" where
  "send_str fd s = send_all fd s"

section \<open>The registry\<close>

text \<open>\<^verbatim>\<open>find_free_slot\<close>: the first index whose slot is not alive, or -1.\<close>

fun find_free_from :: "client_t list \<Rightarrow> nat list \<Rightarrow> int" where
  "find_free_from cs [] = - 1"
| "find_free_from cs (i # is) = (if \<not> c_alive (cs ! i) then int i else find_free_from cs is)"

definition find_free_slot :: "server \<Rightarrow> int" where
  "find_free_slot s = find_free_from (clients s) [0..<MAX_CLIENTS]"

text \<open>\<^verbatim>\<open>add_client\<close>: the new globals and the slot returned.\<close>

definition add_client :: "server \<Rightarrow> int \<Rightarrow> server \<times> int" where
  "add_client s fd =
     (let slot = find_free_slot s in
      if slot \<ge> 0 then
        (s\<lparr>clients := (clients s)[nat slot :=
              (clients s ! nat slot)\<lparr>c_fd := fd, c_alive := True, c_id := next_id s,
                 c_name := snprintf NAME_LEN (''Client-'' @ fmt_d64 (next_id s))\<rparr>],
           next_id := next_id s + 1\<rparr>, slot)
      else (s, slot))"

text \<open>\<^verbatim>\<open>remove_client\<close>.\<close>

definition remove_client :: "server \<Rightarrow> int \<Rightarrow> server \<times> event list" where
  "remove_client s slot =
     (if slot \<ge> 0 \<and> slot < int MAX_CLIENTS \<and> c_alive (clients s ! nat slot) then
        (s\<lparr>clients := (clients s)[nat slot :=
              (clients s ! nat slot)\<lparr>c_alive := False, c_name := [], c_id := 0\<rparr>]\<rparr>,
         [Close (c_fd (clients s ! nat slot))])
      else (s, []))"

text \<open>\<^verbatim>\<open>find_by_id\<close>: the index of the slot the returned pointer points to.\<close>

fun find_by_id_from :: "client_t list \<Rightarrow> int64_t \<Rightarrow> nat list \<Rightarrow> nat option" where
  "find_by_id_from cs tid [] = None"
| "find_by_id_from cs tid (i # is) =
     (if c_alive (cs ! i) \<and> c_id (cs ! i) = tid then Some i else find_by_id_from cs tid is)"

definition find_by_id :: "server \<Rightarrow> int64_t \<Rightarrow> nat option" where
  "find_by_id s tid = find_by_id_from (clients s) tid [0..<MAX_CLIENTS]"

text \<open>\<^verbatim>\<open>broadcast_except\<close>.\<close>

fun broadcast_from :: "client_t list \<Rightarrow> string \<Rightarrow> int \<Rightarrow> nat list \<Rightarrow> event list" where
  "broadcast_from cs msg except_fd [] = []"
| "broadcast_from cs msg except_fd (i # is) =
     (if c_alive (cs ! i) \<and> c_fd (cs ! i) \<noteq> except_fd then send_str (c_fd (cs ! i)) msg else [])
     @ broadcast_from cs msg except_fd is"

definition broadcast_except :: "server \<Rightarrow> string \<Rightarrow> int \<Rightarrow> event list" where
  "broadcast_except s msg except_fd = broadcast_from (clients s) msg except_fd [0..<MAX_CLIENTS]"

text \<open>\<^verbatim>\<open>list_users\<close>: the buffer \<^verbatim>\<open>out[4096]\<close> and \<^verbatim>\<open>pos\<close> through the loop.\<close>

definition list_header :: string where
  "list_header = ''=== Connected Users ===\<newline>''"

definition list_footer :: string where
  "list_footer = ''=======================\<newline>''"

definition user_line :: "client_t \<Rightarrow> string" where
  "user_line c = ''ID:'' @ fmt_d64 (c_id c) @ ''  '' @ c_name c @ ''\<newline>''"

fun list_loop :: "client_t list \<Rightarrow> nat list \<Rightarrow> string \<times> nat \<Rightarrow> string \<times> nat" where
  "list_loop cs [] (out, pos) = (out, pos)"
| "list_loop cs (i # is) (out, pos) =
     (if pos + 64 < 4096 then
        (if c_alive (cs ! i) then list_loop cs is (snprintf_at out pos 4096 (user_line (cs ! i)))
         else list_loop cs is (out, pos))
      else (out, pos))"

definition list_users_out :: "server \<Rightarrow> string" where
  "list_users_out s =
     (let (out, pos) = snprintf_at [] 0 4096 list_header;
          (out, pos) = list_loop (clients s) [0..<MAX_CLIENTS] (out, pos);
          (out, pos) = snprintf_at out pos 4096 list_footer
      in out)"

definition list_users :: "server \<Rightarrow> int \<Rightarrow> event list" where
  "list_users s fd = send_all fd (list_users_out s)"

text \<open>\<^verbatim>\<open>shutdown_server\<close>.\<close>

fun shutdown_loop :: "client_t list \<Rightarrow> nat list \<Rightarrow> client_t list \<times> event list" where
  "shutdown_loop cs [] = (cs, [])"
| "shutdown_loop cs (i # is) =
     (if c_alive (cs ! i) then
        (let (cs', ev) = shutdown_loop (cs[i := (cs ! i)\<lparr>c_alive := False\<rparr>]) is
         in (cs', send_str (c_fd (cs ! i)) ''[Server] Shutting down.\<newline>'' @ [Close (c_fd (cs ! i))] @ ev))
      else shutdown_loop cs is)"

definition shutdown_server :: "server \<Rightarrow> server \<times> event list" where
  "shutdown_server s =
     (let ev1 = (if listen_fd s \<noteq> - 1 then [Close (listen_fd s)] else []);
          (cs', ev2) = shutdown_loop (clients s) [0..<MAX_CLIENTS];
          s' = s\<lparr>clients := cs'\<rparr>
      in if logf s' \<noteq> None then
           (let ev3 = log_event s' ''SERVER SHUTDOWN'';
                (s'', ev4) = fclose_logf s'
            in (s'', ev1 @ ev2 @ ev3 @ ev4))
         else (s', ev1 @ ev2))"

text \<open>
  The body of the accept loop of \<^verbatim>\<open>main\<close> once \<^verbatim>\<open>accept\<close> has returned \<open>client_fd\<close>:
  the slot of the thread to start, or no thread when the table is full.
\<close>

definition accept_client :: "server \<Rightarrow> int \<Rightarrow> server \<times> int option \<times> event list" where
  "accept_client s client_fd =
     (let (s', slot) = add_client s client_fd in
      if slot < 0 then (s', None, send_str client_fd ''Server full.\<newline>'' @ [Close client_fd])
      else (s', Some slot, []))"

section \<open>The client thread\<close>

text \<open>The locals of \<^verbatim>\<open>client_thread\<close>: \<^verbatim>\<open>slot\<close>, \<^verbatim>\<open>fd\<close>, \<^verbatim>\<open>my_id\<close> and \<^verbatim>\<open>my_name\<close>.\<close>

record locals =
  slot :: int
  l_fd :: int
  my_id :: int64_t
  my_name :: string

datatype ctl = Continue | Break

datatype session_state = Active | Closed

text \<open>
  The loop that strips trailing \<^verbatim>\<open>'\n'\<close> and \<^verbatim>\<open>'\r'\<close>: what is left of the \<open>n\<close> bytes
  received.
\<close>

function strip_eol :: "string \<Rightarrow> string" where
  "strip_eol bs =
     (if bs \<noteq> [] \<and> (last bs = CHR ''\<newline>'' \<or> last bs = CHR 0x0D) then strip_eol (butlast bs)
      else bs)"
  by pat_completeness auto
termination
  by (relation "measure length") auto

declare strip_eol.simps [simp del]

text \<open>The prologue of \<^verbatim>\<open>client_thread\<close>: the locals, the welcome and the announcement.\<close>

definition client_start :: "server \<Rightarrow> int \<Rightarrow> locals \<times> event list" where
  "client_start s sl =
     (let c = clients s ! nat sl;
          l = \<lparr>slot = sl, l_fd = c_fd c, my_id = c_id c, my_name = snprintf NAME_LEN (c_name c)\<rparr>
      in (l,
          send_str (l_fd l) (snprintf BUF_SIZE (''Welcome '' @ my_name l @ '' (ID:'' @ fmt_d64 (my_id l)
              @ '')\<newline>Commands: /name <new>, /list, /msg <id> <text>, /quit\<newline>''))
          @ broadcast_except s (snprintf BUF_SIZE (''[Server] '' @ my_name l @ '' (ID:''
              @ fmt_d64 (my_id l) @ '') joined.\<newline>'')) (l_fd l)
          @ log_event s (''CONNECT id='' @ fmt_d64 (my_id l) @ '' name='' @ my_name l)))"

text \<open>
  One turn of the \<^verbatim>\<open>while (1)\<close> loop on the bytes one \<^verbatim>\<open>recv\<close> returned (none for a
  return value \<open>n \<le> 0\<close>): whether the loop goes on, the globals, the locals and the
  events.
\<close>

definition client_step :: "server \<Rightarrow> locals \<Rightarrow> string \<Rightarrow> ctl \<times> server \<times> locals \<times> event list" where
  "client_step s l bs =
     (if bs = [] then (Break, s, l, [])
      else let raw = strip_eol bs in
      if raw = [] then (Break, s, l, [])
      else let buf = cstr raw in
      if buf \<noteq> [] \<and> hd buf = CHR ''/'' then
        (if strncmp_eq buf ''/quit'' 5 then (Break, s, l, [])
         else if strncmp_eq buf ''/name '' 6 then
           (let newn = drop 6 buf in
            if newn = [] then (Continue, s, l, send_str (l_fd l) ''Usage: /name <newname>\<newline>'')
            else
              let nl = min (length newn) (NAME_LEN - 1);
                  s' = s\<lparr>clients := (clients s)[nat (slot l) :=
                          (clients s ! nat (slot l))\<lparr>c_name := take nl newn\<rparr>]\<rparr>;
                  l' = l\<lparr>my_name := take nl newn\<rparr>
              in (Continue, s', l',
                  broadcast_except s' (snprintf BUF_SIZE (''[Server] ID '' @ fmt_d64 (my_id l')
                      @ '' is now known as '' @ my_name l' @ ''\<newline>'')) (- 1)
                  @ log_event s' (''RENAME id='' @ fmt_d64 (my_id l') @ '' name='' @ my_name l')))
         else if strncmp_eq buf ''/list'' 5 then (Continue, s, l, list_users s (l_fd l))
         else if strncmp_eq buf ''/msg '' 5 then
           (let p = drop 5 buf;
                tid = atoll p;
                p1 = dropWhile (\<lambda>c. c \<noteq> CHR '' '') p;
                p2 = (if p1 \<noteq> [] then tl p1 else p1)
            in case find_by_id s tid of
                 Some t \<Rightarrow>
                   (Continue, s, l,
                    send_str (c_fd (clients s ! t)) (snprintf (BUF_SIZE + 64) (''[PM from '' @ my_name l
                        @ '' (ID:'' @ fmt_d64 (my_id l) @ '')]: '' @ p2 @ ''\<newline>''))
                    @ send_str (l_fd l) ''[PM sent]\<newline>''
                    @ log_event s (''PM from='' @ fmt_d64 (my_id l) @ '' to=''
                        @ fmt_d64 (c_id (clients s ! t)) @ '' text='' @ p2))
               | None \<Rightarrow> (Continue, s, l, send_str (l_fd l) ''User not found.\<newline>''))
         else (Continue, s, l, send_str (l_fd l) ''Unknown command.\<newline>''))
      else
        (Continue, s, l,
         broadcast_except s (snprintf (BUF_SIZE + 64) (my_name l @ '' (ID:'' @ fmt_d64 (my_id l)
             @ ''): '' @ buf @ ''\<newline>'')) (l_fd l)
         @ log_event s (''MSG id='' @ fmt_d64 (my_id l) @ '' name='' @ my_name l @ '' text='' @ buf)))"

text \<open>The code after the loop: the announcement, the audit record and \<^verbatim>\<open>remove_client\<close>.\<close>

definition client_disconnect :: "server \<Rightarrow> locals \<Rightarrow> server \<times> event list" where
  "client_disconnect s l =
     (let ev1 = broadcast_except s (snprintf BUF_SIZE (''[Server] '' @ my_name l @ '' (ID:''
                  @ fmt_d64 (my_id l) @ '') disconnected.\<newline>'')) (l_fd l);
          ev2 = log_event s (''DISCONNECT id='' @ fmt_d64 (my_id l) @ '' name='' @ my_name l);
          (s', ev3) = remove_client s (slot l)
      in (s', ev1 @ ev2 @ ev3))"

text \<open>
  The loop on the results of the successive \<^verbatim>\<open>recv\<close> calls. With no result left the
  thread is blocked in \<^verbatim>\<open>recv\<close>: the session is still \<open>Active\<close>.
\<close>

fun client_loop :: "server \<Rightarrow> locals \<Rightarrow> string list \<Rightarrow> session_state \<times> server \<times> locals \<times> event list" where
  "client_loop s l [] = (Active, s, l, [])"
| "client_loop s l (bs # rest) =
     (case client_step s l bs of
        (Break, s1, l1, ev1) \<Rightarrow>
          (let (s2, ev2) = client_disconnect s1 l1 in (Closed, s2, l1, ev1 @ ev2))
      | (Continue, s1, l1, ev1) \<Rightarrow>
          (let (st, s2, l2, ev2) = client_loop s1 l1 rest in (st, s2, l2, ev1 @ ev2)))"

section \<open>Concrete states\<close>

text \<open>
  Three sessions accepted in turn on descriptors 4, 5 and 6 by a server listening on
  descriptor 3 with its log open, and the locals of the thread of the first one.
\<close>

definition demo_server :: server where
  "demo_server =
     \<lparr>clients =
        [\<lparr>c_fd = 4, c_alive = True, c_id = 1, c_name = ''Client-1''\<rparr>,
         \<lparr>c_fd = 5, c_alive = True, c_id = 2, c_name = ''Client-2''\<rparr>,
         \<lparr>c_fd = 6, c_alive = True, c_id = 3, c_name = ''Client-3''\<rparr>]
        @ replicate 125 zero_client,
      next_id = 4, listen_fd = 3, logf = Some Stream_open\<rparr>"

definition demo_locals :: locals where
  "demo_locals = \<lparr>slot = 0, l_fd = 4, my_id = 1, my_name = ''Client-1''\<rparr>"

text \<open>
  A full table: 128 live sessions with ids 1 to 128, each renamed to a name of 31 bytes.
\<close>

definition full_server :: server where
  "full_server =
     \<lparr>clients = map (\<lambda>i. \<lparr>c_fd = 4 + int i, c_alive = True, c_id = word_of_nat (Suc i),
                          c_name = replicate 31 (CHR ''A'')\<rparr>) [0..<MAX_CLIENTS],
      next_id = 129, listen_fd = 3, logf = Some Stream_open\<rparr>"

section \<open>Runs of the registry\<close>

text \<open>
  What happens to the registry over the life of the process: \<open>Register fd\<close> is one turn
  of the accept loop of \<^verbatim>\<open>main\<close> in which \<^verbatim>\<open>accept\<close> returns \<open>fd\<close>, and
  \<open>Unregister slot\<close> is the call \<^verbatim>\<open>remove_client(slot)\<close> that ends a client thread (or
  follows a failed \<^verbatim>\<open>malloc\<close>). \<open>run_ops\<close> returns the final globals and the ids given
  to the registrations that found a slot, in order.
\<close>

datatype reg_op = Register int | Unregister int

fun run_ops :: "server \<Rightarrow> reg_op list \<Rightarrow> server \<times> int64_t list" where
  "run_ops s [] = (s, [])"
| "run_ops s (Register fd # ops) =
     (case accept_client s fd of
        (s1, None, ev) \<Rightarrow> run_ops s1 ops
      | (s1, Some sl, ev) \<Rightarrow>
          (let (s2, ids) = run_ops s1 ops in (s2, c_id (clients s1 ! nat sl) # ids)))"
| "run_ops s (Unregister sl # ops) = run_ops (fst (remove_client s sl)) ops"

text \<open>
  The invariant of the data model: the table has \<^verbatim>\<open>MAX_CLIENTS\<close> slots, so at most that
  many are alive; the ids of the live slots are pairwise different; a slot that is not
  alive has an empty name and the id 0.
\<close>

definition registry_inv :: "server \<Rightarrow> bool" where
  "registry_inv s \<longleftrightarrow>
     length (clients s) = MAX_CLIENTS
     \<and> length (filter c_alive (clients s)) \<le> MAX_CLIENTS
     \<and> distinct (map c_id (filter c_alive (clients s)))
     \<and> (\<forall>c\<in>set (clients s). \<not> c_alive c \<longrightarrow> c_name c = [] \<and> c_id c = 0)"

text \<open>
  What keeps the ids apart: every live id is positive and below \<^verbatim>\<open>next_id\<close>, read as
  signed 64-bit values.
\<close>

definition ids_below :: "server \<Rightarrow> bool" where
  "ids_below s \<longleftrightarrow>
     0 < sint (next_id s)
     \<and> (\<forall>c\<in>set (clients s). c_alive c \<longrightarrow> 0 < sint (c_id c) \<and> sint (c_id c) < sint (next_id s))"

section \<open>Reading a listing\<close>

text \<open>
  The number of bytes in the buffer of \<^verbatim>\<open>list_users\<close> if the header and the lines of the
  live sessions among the first \<open>k\<close> slots are written whole: the value of \<^verbatim>\<open>pos\<close> when
  the scan reaches slot \<open>k\<close>.
\<close>

definition listed_bytes :: "server \<Rightarrow> nat \<Rightarrow> nat" where
  "listed_bytes s k =
     length list_header + length (concat (map user_line (filter c_alive (take k (clients s)))))"

text \<open>
  The lines of a text as a reader sees them: the runs of bytes that a \<^verbatim>\<open>'\n'\<close> ends, and
  what follows the last \<^verbatim>\<open>'\n'\<close> when it is not empty.
\<close>

fun lines_from :: "string \<Rightarrow> string \<Rightarrow> string list" where
  "lines_from cur [] = (if cur = [] then [] else [cur])"
| "lines_from cur (c # cs) =
     (if c = CHR ''\<newline>'' then cur # lines_from [] cs else lines_from (cur @ [c]) cs)"

definition split_lines :: "string \<Rightarrow> string list" where
  "split_lines text = lines_from [] text"

section \<open>Scanning the table\<close>

lemma map_index_nth: "map (\<lambda>i. f (xs ! i)) [0..<length xs] = map f xs"
  by (rule nth_equalityI) simp_all

lemma find_free_from_all_alive: "\<forall>i\<in>set is. c_alive (cs ! i) \<Longrightarrow> find_free_from cs is = - 1"
  by (induction "is") auto

lemma find_free_from_found:
  "0 \<le> find_free_from cs is \<Longrightarrow>
     nat (find_free_from cs is) \<in> set is \<and> \<not> c_alive (cs ! nat (find_free_from cs is))"
  by (induction "is") (auto split: if_splits)

lemma broadcast_from_concat:
  "broadcast_from cs msg ex is =
     concat (map (\<lambda>i. if c_alive (cs ! i) \<and> c_fd (cs ! i) \<noteq> ex
                       then send_str (c_fd (cs ! i)) msg else []) is)"
  by (induction "is") simp_all

lemma broadcast_except_concat:
  assumes "length (clients s) = MAX_CLIENTS"
  shows "broadcast_except s msg ex =
     concat (map (\<lambda>c. if c_alive c \<and> c_fd c \<noteq> ex then send_str (c_fd c) msg else [])
       (clients s))"
proof -
  have "map (\<lambda>i. if c_alive (clients s ! i) \<and> c_fd (clients s ! i) \<noteq> ex
                  then send_str (c_fd (clients s ! i)) msg else []) [0..<length (clients s)]
      = map (\<lambda>c. if c_alive c \<and> c_fd c \<noteq> ex then send_str (c_fd c) msg else []) (clients s)"
    by (rule map_index_nth)
  then show ?thesis
    using assms by (simp add: broadcast_except_def broadcast_from_concat)
qed

lemma find_by_id_from_Some:
  "find_by_id_from cs tid is = Some t \<Longrightarrow> t \<in> set is \<and> c_alive (cs ! t) \<and> c_id (cs ! t) = tid"
  by (induction "is") (auto split: if_splits)

lemma find_by_id_from_None:
  "find_by_id_from cs tid is = None \<longleftrightarrow> (\<forall>i\<in>set is. \<not> (c_alive (cs ! i) \<and> c_id (cs ! i) = tid))"
  by (induction "is") auto

section \<open>Received lines\<close>

lemma strip_eol_Nil: "strip_eol [] = []"
  by (subst strip_eol.simps) simp

lemma strip_eol_snoc:
  "strip_eol (bs @ [c]) = (if c = CHR ''\<newline>'' \<or> c = CHR 0x0D then strip_eol bs else bs @ [c])"
  by (subst strip_eol.simps) simp

lemma strip_eol_dropWhile:
  "strip_eol bs = rev (dropWhile (\<lambda>c. c = CHR ''\<newline>'' \<or> c = CHR 0x0D) (rev bs))"
  by (induction bs rule: rev_induct) (simp_all add: strip_eol_Nil strip_eol_snoc)

lemma cstr_nonempty_strip: "cstr (strip_eol bs) \<noteq> [] \<Longrightarrow> bs \<noteq> [] \<and> strip_eol bs \<noteq> []"
  by (auto simp: cstr_def strip_eol_Nil)





section \<open>Command dispatch\<close>




section \<open>A full table\<close>

text \<open>
  Claim C4. When every one of the \<^verbatim>\<open>MAX_CLIENTS\<close> slots holds a live session,
  \<^verbatim>\<open>add_client\<close> returns -1 and leaves the table and \<^verbatim>\<open>next_id\<close> as they were, and the
  accept loop sends \<^verbatim>\<open>Server full.\<close> on the new connection, closes it and starts no
  thread.
\<close>

theorem add_client_full:
  assumes "\<forall>i<MAX_CLIENTS. c_alive (clients s ! i)"
  shows "add_client s fd = (s, - 1)
    \<and> accept_client s fd = (s, None, [Send fd ''Server full.\<newline>'', Close fd])"
proof -
  from assms have "find_free_slot s = - 1"
    unfolding find_free_slot_def by (intro find_free_from_all_alive) simp
  then have a: "add_client s fd = (s, - 1)"
    by (simp add: add_client_def)
  then show ?thesis
    by (simp add: accept_client_def send_str_def send_all_def)
qed

theorem add_client_full_witness:
  "add_client full_server 200 = (full_server, - 1)
    \<and> accept_client full_server 200 = (full_server, None, [Send 200 ''Server full.\<newline>'', Close 200])"
proof -
  have "\<forall>i<MAX_CLIENTS. c_alive (clients full_server ! i)"
    by (simp add: full_server_def)
  then show ?thesis
    by (rule add_client_full)
qed

section \<open>Lines that are empty after stripping\<close>

lemma strip_eol_empty_iff:
  "strip_eol bs = [] \<longleftrightarrow> set bs \<subseteq> {CHR ''\<newline>'', CHR 0x0D}"
  by (auto simp: strip_eol_dropWhile)

lemma step_empty_line:
  assumes "set bs \<subseteq> {CHR ''\<newline>'', CHR 0x0D}"
  shows "client_step s l bs = (Break, s, l, [])"
  using assms by (simp add: client_step_def strip_eol_empty_iff [symmetric])

lemma log_event_clients: "log_event (s\<lparr>clients := cs\<rparr>) msg = log_event s msg"
  by (simp add: log_event_def)

lemma fmt_d64_small: "fmt_d64 1 = ''1''" "fmt_d64 2 = ''2''" "fmt_d64 3 = ''3''"
  by (simp_all add: fmt_d64_def dec_nat.simps digit_char_def)

lemma demo_length: "length (clients demo_server) = MAX_CLIENTS"
  by (simp add: demo_server_def MAX_CLIENTS_def)

lemma demo_broadcast:
  "broadcast_except demo_server msg ex =
     (if 4 \<noteq> ex then send_str 4 msg else []) @ (if 5 \<noteq> ex then send_str 5 msg else [])
     @ (if 6 \<noteq> ex then send_str 6 msg else [])"
  by (simp add: broadcast_except_concat [OF demo_length]) (simp add: demo_server_def zero_client_def)

section \<open>Shutdown\<close>

lemma dead_update_id: "\<not> c_alive c \<Longrightarrow> c\<lparr>c_alive := False\<rparr> = c"
  by (cases c) simp

lemma shutdown_loop_length: "length (fst (shutdown_loop cs is)) = length cs"
  by (induction "is" arbitrary: cs) (simp_all add: split_def Let_def)

lemma shutdown_loop_nth:
  assumes "distinct is" and "\<forall>i\<in>set is. i < length cs" and "j < length cs"
  shows "fst (shutdown_loop cs is) ! j = (if j \<in> set is then (cs ! j)\<lparr>c_alive := False\<rparr> else cs ! j)"
  using assms
proof (induction "is" arbitrary: cs)
  case Nil
  then show ?case by simp
next
  case (Cons i "is")
  show ?case
  proof (cases "c_alive (cs ! i)")
    case True
    let ?cs = "cs[i := (cs ! i)\<lparr>c_alive := False\<rparr>]"
    have "fst (shutdown_loop ?cs is) ! j = (if j \<in> set is then (?cs ! j)\<lparr>c_alive := False\<rparr> else ?cs ! j)"
      using Cons.prems by (intro Cons.IH) auto
    then show ?thesis
      using True Cons.prems by (auto simp: split_def Let_def nth_list_update)
  next
    case False
    have "fst (shutdown_loop cs is) ! j = (if j \<in> set is then (cs ! j)\<lparr>c_alive := False\<rparr> else cs ! j)"
      using Cons.prems by (intro Cons.IH) auto
    then show ?thesis
      using False by (auto simp: dead_update_id)
  qed
qed

lemma shutdown_loop_events:
  assumes "distinct is" and "\<forall>i\<in>set is. i < length cs"
  shows "snd (shutdown_loop cs is) =
     concat (map (\<lambda>i. if c_alive (cs ! i)
        then send_str (c_fd (cs ! i)) ''[Server] Shutting down.\<newline>'' @ [Close (c_fd (cs ! i))]
        else []) is)"
  using assms
proof (induction "is" arbitrary: cs)
  case Nil
  then show ?case by simp
next
  case (Cons i "is")
  show ?case
  proof (cases "c_alive (cs ! i)")
    case True
    let ?cs = "cs[i := (cs ! i)\<lparr>c_alive := False\<rparr>]"
    have "snd (shutdown_loop ?cs is) =
       concat (map (\<lambda>k. if c_alive (?cs ! k)
        then send_str (c_fd (?cs ! k)) ''[Server] Shutting down.\<newline>'' @ [Close (c_fd (?cs ! k))]
        else []) is)"
      using Cons.prems by (intro Cons.IH) auto
    also have "map (\<lambda>k. if c_alive (?cs ! k)
        then send_str (c_fd (?cs ! k)) ''[Server] Shutting down.\<newline>'' @ [Close (c_fd (?cs ! k))]
        else []) is = map (\<lambda>k. if c_alive (cs ! k)
        then send_str (c_fd (cs ! k)) ''[Server] Shutting down.\<newline>'' @ [Close (c_fd (cs ! k))]
        else []) is"
      using Cons.prems by (intro map_cong) (auto simp: nth_list_update)
    finally show ?thesis
      using True by (simp add: split_def Let_def)
  next
    case False
    then show ?thesis
      using Cons.prems Cons.IH [of cs] by simp
  qed
qed

lemma shutdown_loop_all:
  "shutdown_loop cs [0..<length cs] =
     (map (\<lambda>c. c\<lparr>c_alive := False\<rparr>) cs,
      concat (map (\<lambda>c. if c_alive c
        then [Send (c_fd c) ''[Server] Shutting down.\<newline>'', Close (c_fd c)] else []) cs))"
proof -
  have "fst (shutdown_loop cs [0..<length cs]) = map (\<lambda>c. c\<lparr>c_alive := False\<rparr>) cs"
    by (rule nth_equalityI) (simp_all add: shutdown_loop_length shutdown_loop_nth)
  moreover have "snd (shutdown_loop cs [0..<length cs]) =
     concat (map (\<lambda>c. if c_alive c
        then [Send (c_fd c) ''[Server] Shutting down.\<newline>'', Close (c_fd c)] else []) cs)"
  proof -
    let ?f = "\<lambda>c. if c_alive c
        then [Send (c_fd c) ''[Server] Shutting down.\<newline>'', Close (c_fd c)] else []"
    have "snd (shutdown_loop cs [0..<length cs]) = concat (map (\<lambda>i. ?f (cs ! i)) [0..<length cs])"
      by (simp add: shutdown_loop_events send_str_def send_all_def cong: if_cong)
    also have "map (\<lambda>i. ?f (cs ! i)) [0..<length cs] = map ?f cs"
      by (rule map_index_nth)
    finally show ?thesis .
  qed
  ultimately show ?thesis
    by (simp add: prod_eq_iff)
qed

lemma shutdown_server_eq:
  assumes "length (clients s) = MAX_CLIENTS"
  shows "shutdown_server s =
    (case logf s of
       None \<Rightarrow>
         (s\<lparr>clients := map (\<lambda>c. c\<lparr>c_alive := False\<rparr>) (clients s)\<rparr>,
          (if listen_fd s \<noteq> - 1 then [Close (listen_fd s)] else [])
          @ concat (map (\<lambda>c. if c_alive c
              then [Send (c_fd c) ''[Server] Shutting down.\<newline>'', Close (c_fd c)] else []) (clients s)))
     | Some Stream_open \<Rightarrow>
         (s\<lparr>clients := map (\<lambda>c. c\<lparr>c_alive := False\<rparr>) (clients s), logf := Some Stream_closed\<rparr>,
          (if listen_fd s \<noteq> - 1 then [Close (listen_fd s)] else [])
          @ concat (map (\<lambda>c. if c_alive c
              then [Send (c_fd c) ''[Server] Shutting down.\<newline>'', Close (c_fd c)] else []) (clients s))
          @ [Log ''SERVER SHUTDOWN'', Fclose])
     | Some Stream_closed \<Rightarrow>
         (s\<lparr>clients := map (\<lambda>c. c\<lparr>c_alive := False\<rparr>) (clients s)\<rparr>,
          (if listen_fd s \<noteq> - 1 then [Close (listen_fd s)] else [])
          @ concat (map (\<lambda>c. if c_alive c
              then [Send (c_fd c) ''[Server] Shutting down.\<newline>'', Close (c_fd c)] else []) (clients s))
          @ [Use_after_fclose, Use_after_fclose]))"
proof -
  have "shutdown_loop (clients s) [0..<MAX_CLIENTS] =
     (map (\<lambda>c. c\<lparr>c_alive := False\<rparr>) (clients s),
      concat (map (\<lambda>c. if c_alive c
        then [Send (c_fd c) ''[Server] Shutting down.\<newline>'', Close (c_fd c)] else []) (clients s)))"
    using shutdown_loop_all [of "clients s"] assms by simp
  then show ?thesis
    by (simp add: shutdown_server_def log_event_def fclose_logf_def split: option.splits stream.splits)
qed

lemma shutdown_sends:
  "[e \<leftarrow> concat (map (\<lambda>c. if c_alive c
         then [Send (c_fd c) msg, Close (c_fd c)] else []) cs). \<exists>fd m. e = Send fd m]
   = map (\<lambda>c. Send (c_fd c) msg) (filter c_alive cs)"
  by (induction cs) auto

lemma shutdown_no_fclose:
  "count_list (concat (map (\<lambda>c. if c_alive c
         then [Send (c_fd c) msg, Close (c_fd c)] else []) cs)) Fclose = 0"
  by (induction cs) auto

text \<open>
  The first call, on globals whose log is open or was never opened: the notice goes to
  every live session exactly once, in table order; no live session is left; the log is
  closed once when it is open.
\<close>

lemma shutdown_server_first_call:
  assumes "length (clients s) = MAX_CLIENTS" and "logf s \<noteq> Some Stream_closed"
  shows "[e \<leftarrow> snd (shutdown_server s). \<exists>fd m. e = Send fd m] =
      map (\<lambda>c. Send (c_fd c) ''[Server] Shutting down.\<newline>'') (filter c_alive (clients s))
    \<and> count_list (snd (shutdown_server s)) Fclose = (if logf s = None then 0 else 1)
    \<and> Use_after_fclose \<notin> set (snd (shutdown_server s))
    \<and> filter c_alive (clients (fst (shutdown_server s))) = []"
proof (cases "logf s")
  case None
  then show ?thesis
    by (auto simp: shutdown_server_eq [OF assms(1)] shutdown_sends shutdown_no_fclose filter_empty_conv)
next
  case (Some st)
  then have "logf s = Some Stream_open"
    using assms(2) by (cases st) simp_all
  then show ?thesis
    by (auto simp: shutdown_server_eq [OF assms(1)] shutdown_sends shutdown_no_fclose filter_empty_conv)
qed

text \<open>
  Claim C2. On the three sessions the first call of \<^verbatim>\<open>shutdown_server\<close> does what the
  claim says: it closes the listening descriptor, sends the notice to each live session
  once and closes its descriptor, leaves no session alive, writes the audit record and
  closes the log once. It resets neither \<^verbatim>\<open>listen_fd\<close> nor \<^verbatim>\<open>logf\<close>, so the guards
  \<^verbatim>\<open>listen_fd != -1\<close> and \<^verbatim>\<open>if (logf)\<close> pass again in a second call: \<^verbatim>\<open>close\<close> is called
  on the closed listening descriptor, and \<^verbatim>\<open>log_event\<close> and \<^verbatim>\<open>fclose\<close> are called on the
  stream that the first call closed, which is undefined behaviour. The second call is
  neither without effect nor safe.
\<close>

theorem shutdown_twice_undefined:
  "shutdown_server demo_server =
     (demo_server\<lparr>clients := map (\<lambda>c. c\<lparr>c_alive := False\<rparr>) (clients demo_server),
        logf := Some Stream_closed\<rparr>,
      [Close 3, Send 4 ''[Server] Shutting down.\<newline>'', Close 4,
       Send 5 ''[Server] Shutting down.\<newline>'', Close 5,
       Send 6 ''[Server] Shutting down.\<newline>'', Close 6, Log ''SERVER SHUTDOWN'', Fclose])
   \<and> filter c_alive (clients (fst (shutdown_server demo_server))) = []
   \<and> snd (shutdown_server (fst (shutdown_server demo_server)))
       = [Close 3, Use_after_fclose, Use_after_fclose]"
proof -
  have len: "length (clients demo_server) = MAX_CLIENTS"
    by (simp add: demo_server_def MAX_CLIENTS_def)
  let ?s = "demo_server\<lparr>clients := map (\<lambda>c. c\<lparr>c_alive := False\<rparr>) (clients demo_server),
        logf := Some Stream_closed\<rparr>"
  have len2: "length (clients ?s) = MAX_CLIENTS"
    using len by simp
  have 1: "shutdown_server demo_server = (?s,
     [Close 3, Send 4 ''[Server] Shutting down.\<newline>'', Close 4,
      Send 5 ''[Server] Shutting down.\<newline>'', Close 5,
      Send 6 ''[Server] Shutting down.\<newline>'', Close 6, Log ''SERVER SHUTDOWN'', Fclose])"
    unfolding shutdown_server_eq [OF len]
    by (simp add: demo_server_def zero_client_def)
  have 2: "snd (shutdown_server ?s) = [Close 3, Use_after_fclose, Use_after_fclose]"
    unfolding shutdown_server_eq [OF len2]
    by (simp add: demo_server_def zero_client_def comp_def)
  have 3: "filter c_alive (clients ?s) = []"
    by (simp add: filter_empty_conv)
  show ?thesis
    by (simp only: 1 2 3 fst_conv snd_conv simp_thms)
qed

section \<open>Formatting\<close>

lemma dec_nat_length: "n < 10 ^ k \<Longrightarrow> 0 < k \<Longrightarrow> length (dec_nat n) \<le> k"
proof (induction n arbitrary: k rule: dec_nat.induct)
  case (1 n)
  show ?case
  proof (cases "n < 10")
    case True
    then show ?thesis using "1.prems" by (subst dec_nat.simps) simp
  next
    case False
    then obtain k' where k: "k = Suc k'" using "1.prems" by (cases k) auto
    have "k' \<noteq> 0" using False "1.prems" k by (cases k') auto
    moreover have "n div 10 < 10 ^ k'" using "1.prems" k by (simp add: less_mult_imp_div_less mult.commute)
    ultimately have "length (dec_nat (n div 10)) \<le> k'"
      using "1.IH" [OF False, of k'] by simp
    then show ?thesis using False k by (subst dec_nat.simps) simp
  qed
qed

lemma fmt_d64_length: "length (fmt_d64 w) \<le> 20"
proof -
  have lo: "- 9223372036854775808 \<le> sint w" and hi: "sint w < 9223372036854775808"
    using sint_ge [of w] sint_lt [of w] by simp_all
  have p: "(10000000000000000000::nat) = 10 ^ 19"
    by simp
  show ?thesis
  proof (cases "sint w < 0")
    case True
    have "nat (- sint w) < 10000000000000000000"
      using lo by linarith
    then have "nat (- sint w) < 10 ^ 19"
      by (simp only: p)
    then have "length (dec_nat (nat (- sint w))) \<le> 19"
      by (rule dec_nat_length) simp
    then show ?thesis
      using True by (simp add: fmt_d64_def)
  next
    case False
    have "nat (sint w) < 10000000000000000000"
      using hi False by linarith
    then have "nat (sint w) < 10 ^ 19"
      by (simp only: p)
    then have "length (dec_nat (nat (sint w))) \<le> 19"
      by (rule dec_nat_length) simp
    then show ?thesis
      using False by (simp add: fmt_d64_def)
  qed
qed

lemma snprintf_fits: "length text < sz \<Longrightarrow> snprintf sz text = text"
  by (simp add: snprintf_def)

lemma broadcast_all:
  assumes "length (clients s) = MAX_CLIENTS" and "\<forall>c\<in>set (clients s). c_alive c \<longrightarrow> c_fd c \<noteq> - 1"
    and "msg \<noteq> []"
  shows "broadcast_except s msg (- 1) = map (\<lambda>c. Send (c_fd c) msg) (filter c_alive (clients s))"
proof -
  have "concat (map (\<lambda>c. if c_alive c \<and> c_fd c \<noteq> - 1 then send_str (c_fd c) msg else []) cs)
      = map (\<lambda>c. Send (c_fd c) msg) (filter c_alive cs)"
    if "\<forall>c\<in>set cs. c_alive c \<longrightarrow> c_fd c \<noteq> - 1" for cs :: "client_t list"
    using that assms(3) by (induction cs) (auto simp: send_str_def send_all_def)
  then show ?thesis
    using assms by (simp add: broadcast_except_concat)
qed

section \<open>The empty line closes the session\<close>

lemma broadcast_others:
  assumes "length (clients s) = MAX_CLIENTS" and "msg \<noteq> []"
  shows "broadcast_except s msg ex =
     map (\<lambda>c. Send (c_fd c) msg) (filter (\<lambda>c. c_alive c \<and> c_fd c \<noteq> ex) (clients s))"
proof -
  have "concat (map (\<lambda>c. if c_alive c \<and> c_fd c \<noteq> ex then send_str (c_fd c) msg else []) cs)
      = map (\<lambda>c. Send (c_fd c) msg) (filter (\<lambda>c. c_alive c \<and> c_fd c \<noteq> ex) cs)"
    for cs :: "client_t list"
    using assms(2) by (induction cs) (auto simp: send_str_def send_all_def)
  then show ?thesis
    using assms(1) by (simp add: broadcast_except_concat)
qed

text \<open>
  Claim C1, as the code has it. A received buffer that holds nothing but \<^verbatim>\<open>'\n'\<close> and
  \<^verbatim>\<open>'\r'\<close> is empty after stripping, and \<^verbatim>\<open>if (n == 0) break;\<close> leaves the loop. For a
  thread whose slot is alive and holds its descriptor, the session is closed through the
  disconnect sequence, and these are all its effects, in this order: the announcement
  is sent to every live session on another descriptor and not to the session itself; the
  audit record is written (when the log was opened); the descriptor of the session is
  closed; its slot is marked dead with its name and id cleared.
\<close>

theorem empty_line_disconnects:
  assumes "bs \<noteq> []" and "set bs \<subseteq> {CHR ''\<newline>'', CHR 0x0D}"
    and "length (clients s) = MAX_CLIENTS" and "0 \<le> slot l" and "slot l < int MAX_CLIENTS"
    and "c_alive (clients s ! nat (slot l))" and "c_fd (clients s ! nat (slot l)) = l_fd l"
    and "length (my_name l) \<le> NAME_LEN - 1" and "logf s \<noteq> Some Stream_closed"
  shows "client_loop s l (bs # later) =
      (Closed,
       s\<lparr>clients := (clients s)[nat (slot l) :=
          (clients s ! nat (slot l))\<lparr>c_alive := False, c_name := [], c_id := 0\<rparr>]\<rparr>,
       l,
       map (\<lambda>c. Send (c_fd c)
              (''[Server] '' @ my_name l @ '' (ID:'' @ fmt_d64 (my_id l) @ '') disconnected.\<newline>''))
         (filter (\<lambda>c. c_alive c \<and> c_fd c \<noteq> l_fd l) (clients s))
       @ (if logf s = None then []
          else [Log (''DISCONNECT id='' @ fmt_d64 (my_id l) @ '' name='' @ my_name l)])
       @ [Close (l_fd l)])"
proof -
  let ?msg = "''[Server] '' @ my_name l @ '' (ID:'' @ fmt_d64 (my_id l) @ '') disconnected.\<newline>''"
  have st: "client_step s l bs = (Break, s, l, [])"
    using assms(2) by (rule step_empty_line)
  have "length ?msg < BUF_SIZE"
    using fmt_d64_length [of "my_id l"] assms(8) by (simp add: BUF_SIZE_def NAME_LEN_def)
  then have fit: "snprintf BUF_SIZE ?msg = ?msg"
    by (rule snprintf_fits)
  have b: "broadcast_except s ?msg (l_fd l) =
      map (\<lambda>c. Send (c_fd c) ?msg) (filter (\<lambda>c. c_alive c \<and> c_fd c \<noteq> l_fd l) (clients s))"
    using assms(3) by (rule broadcast_others) simp
  have lg: "log_event s m = (if logf s = None then [] else [Log m])" for m
    using assms(9) by (simp add: log_event_def split: option.splits stream.splits)
  have rm: "remove_client s (slot l) =
      (s\<lparr>clients := (clients s)[nat (slot l) :=
          (clients s ! nat (slot l))\<lparr>c_alive := False, c_name := [], c_id := 0\<rparr>]\<rparr>,
       [Close (l_fd l)])"
    using assms(4-7) by (simp add: remove_client_def)
  have "client_disconnect s l =
      (s\<lparr>clients := (clients s)[nat (slot l) :=
          (clients s ! nat (slot l))\<lparr>c_alive := False, c_name := [], c_id := 0\<rparr>]\<rparr>,
       map (\<lambda>c. Send (c_fd c) ?msg) (filter (\<lambda>c. c_alive c \<and> c_fd c \<noteq> l_fd l) (clients s))
       @ (if logf s = None then []
          else [Log (''DISCONNECT id='' @ fmt_d64 (my_id l) @ '' name='' @ my_name l)])
       @ [Close (l_fd l)])"
    unfolding client_disconnect_def fit b lg rm by (simp add: Let_def)
  then show ?thesis
    by (simp add: st)
qed

theorem empty_line_disconnects_witness:
  "client_loop demo_server demo_locals [[CHR 0x0D, CHR ''\<newline>'']] =
     (Closed,
      demo_server\<lparr>clients := (clients demo_server)[0 :=
         \<lparr>c_fd = 4, c_alive = False, c_id = 0, c_name = []\<rparr>]\<rparr>,
      demo_locals,
      [Send 5 ''[Server] Client-1 (ID:1) disconnected.\<newline>'',
       Send 6 ''[Server] Client-1 (ID:1) disconnected.\<newline>'',
       Log ''DISCONNECT id=1 name=Client-1'', Close 4])"
proof -
  have h: "[CHR 0x0D, CHR ''\<newline>''] \<noteq> []" "set [CHR 0x0D, CHR ''\<newline>''] \<subseteq> {CHR ''\<newline>'', CHR 0x0D}"
    by simp_all
  have sl: "0 \<le> slot demo_locals" "slot demo_locals < int MAX_CLIENTS"
    by (simp_all add: demo_locals_def MAX_CLIENTS_def)
  have c: "c_alive (clients demo_server ! nat (slot demo_locals))"
    "c_fd (clients demo_server ! nat (slot demo_locals)) = l_fd demo_locals"
    by (simp_all add: demo_locals_def demo_server_def)
  have n: "length (my_name demo_locals) \<le> NAME_LEN - 1" "logf demo_server \<noteq> Some Stream_closed"
    by (simp_all add: demo_locals_def demo_server_def NAME_LEN_def)
  show ?thesis
    unfolding empty_line_disconnects [OF h demo_length sl c n]
    by (simp add: demo_locals_def demo_server_def zero_client_def fmt_d64_small)
qed

text \<open>
  The claim as the specification states it fails: on the line end alone the first of
  the three sessions is closed, the other two are told so, and its slot is reset.
\<close>

theorem empty_line_counterexample:
  "strip_eol ''\<newline>'' = []
   \<and> client_loop demo_server demo_locals [''\<newline>''] =
     (Closed, demo_server\<lparr>clients := (clients demo_server)[0 := zero_client\<lparr>c_fd := 4\<rparr>]\<rparr>, demo_locals,
      [Send 5 ''[Server] Client-1 (ID:1) disconnected.\<newline>'',
       Send 6 ''[Server] Client-1 (ID:1) disconnected.\<newline>'',
       Log ''DISCONNECT id=1 name=Client-1'', Close 4])"
proof -
  have 1: "strip_eol ''\<newline>'' = []"
    by (simp add: strip_eol_dropWhile)
  have 2: "client_step demo_server demo_locals ''\<newline>'' = (Break, demo_server, demo_locals, [])"
    by (simp add: client_step_def 1)
  have 3: "remove_client demo_server 0 =
     (demo_server\<lparr>clients := (clients demo_server)[0 := zero_client\<lparr>c_fd := 4\<rparr>]\<rparr>, [Close 4])"
    by (simp add: remove_client_def MAX_CLIENTS_def) (simp add: demo_server_def zero_client_def)
  have 4: "client_disconnect demo_server demo_locals =
     (demo_server\<lparr>clients := (clients demo_server)[0 := zero_client\<lparr>c_fd := 4\<rparr>]\<rparr>,
      [Send 5 ''[Server] Client-1 (ID:1) disconnected.\<newline>'',
       Send 6 ''[Server] Client-1 (ID:1) disconnected.\<newline>'',
       Log ''DISCONNECT id=1 name=Client-1'', Close 4])"
    unfolding client_disconnect_def demo_broadcast
    by (simp add: demo_locals_def 3 [unfolded demo_locals_def] fmt_d64_small snprintf_def BUF_SIZE_def
        send_str_def send_all_def log_event_def) (simp add: demo_server_def)
  show ?thesis
    by (simp add: 1 2 4)
qed

section \<open>Renaming\<close>

lemma step_name:
  assumes "cstr (strip_eol bs) = ''/name '' @ newn" and "newn \<noteq> []"
  shows "client_step s l bs =
     (Continue,
      s\<lparr>clients := (clients s)[nat (slot l) := (clients s ! nat (slot l))\<lparr>c_name := take 31 newn\<rparr>]\<rparr>,
      l\<lparr>my_name := take 31 newn\<rparr>,
      broadcast_except
        (s\<lparr>clients := (clients s)[nat (slot l) := (clients s ! nat (slot l))\<lparr>c_name := take 31 newn\<rparr>]\<rparr>)
        (''[Server] ID '' @ fmt_d64 (my_id l) @ '' is now known as '' @ take 31 newn @ ''\<newline>'') (- 1)
      @ log_event s (''RENAME id='' @ fmt_d64 (my_id l) @ '' name='' @ take 31 newn))"
proof -
  from assms have ne: "bs \<noteq> []" "strip_eol bs \<noteq> []"
    using cstr_nonempty_strip [of bs] by auto
  have "length (''[Server] ID '' @ fmt_d64 (my_id l) @ '' is now known as '' @ take 31 newn @ ''\<newline>'') < BUF_SIZE"
    using fmt_d64_length [of "my_id l"] by (simp add: BUF_SIZE_def)
  then have fit: "snprintf BUF_SIZE (''[Server] ID '' @ fmt_d64 (my_id l) @ '' is now known as '' @ take 31 newn @ ''\<newline>'')
      = ''[Server] ID '' @ fmt_d64 (my_id l) @ '' is now known as '' @ take 31 newn @ ''\<newline>''"
    by (rule snprintf_fits)
  have m: "take (min (length newn) 31) newn = take 31 newn"
    by (simp add: min_def)
  show ?thesis
    using ne assms fit
    by (simp add: client_step_def Let_def strncmp_eq_def NAME_LEN_def m log_event_clients)
qed

text \<open>
  Claim C8. On \<^verbatim>\<open>/name\<close>, a space and a non-empty argument, the argument is cut to
  its first \<^verbatim>\<open>NAME_LEN - 1\<close> = 31 bytes with no error reported, the cut name is stored in
  the slot of the session and in the thread's copy, and the rename notice is sent to
  every live session of the table, the sender's slot included when it is alive, followed
  by the audit record. (Live sessions have descriptors other than -1, the value that
  \<^verbatim>\<open>broadcast_except\<close> takes for no exclusion: \<^verbatim>\<open>accept\<close> returned them.)
\<close>

theorem rename_truncates_and_broadcasts:
  assumes "cstr (strip_eol bs) = ''/name '' @ newn" and "newn \<noteq> []"
    and "length (clients s) = MAX_CLIENTS" and "0 \<le> slot l" and "slot l < int MAX_CLIENTS"
    and "\<forall>c\<in>set (clients s). c_alive c \<longrightarrow> c_fd c \<noteq> - 1"
  shows "client_step s l bs =
       (Continue,
        s\<lparr>clients := (clients s)[nat (slot l) := (clients s ! nat (slot l))\<lparr>c_name := take 31 newn\<rparr>]\<rparr>,
        l\<lparr>my_name := take 31 newn\<rparr>,
        map (\<lambda>c. Send (c_fd c)
              (''[Server] ID '' @ fmt_d64 (my_id l) @ '' is now known as '' @ take 31 newn @ ''\<newline>''))
          (filter c_alive
            ((clients s)[nat (slot l) := (clients s ! nat (slot l))\<lparr>c_name := take 31 newn\<rparr>]))
        @ log_event s (''RENAME id='' @ fmt_d64 (my_id l) @ '' name='' @ take 31 newn))
     \<and> c_name ((clients s)[nat (slot l) := (clients s ! nat (slot l))\<lparr>c_name := take 31 newn\<rparr>]
          ! nat (slot l)) = take 31 newn
     \<and> (c_alive (clients s ! nat (slot l)) \<longrightarrow>
          Send (c_fd (clients s ! nat (slot l)))
            (''[Server] ID '' @ fmt_d64 (my_id l) @ '' is now known as '' @ take 31 newn @ ''\<newline>'')
          \<in> set (snd (snd (snd (client_step s l bs)))))"
proof -
  let ?c = "(clients s ! nat (slot l))\<lparr>c_name := take 31 newn\<rparr>"
  let ?s = "s\<lparr>clients := (clients s)[nat (slot l) := ?c]\<rparr>"
  let ?msg = "''[Server] ID '' @ fmt_d64 (my_id l) @ '' is now known as '' @ take 31 newn @ ''\<newline>''"
  have i: "nat (slot l) < length (clients s)"
    using assms(3-5) by simp
  have len: "length (clients ?s) = MAX_CLIENTS"
    using assms(3) by simp
  have fds: "\<forall>c\<in>set (clients ?s). c_alive c \<longrightarrow> c_fd c \<noteq> - 1"
  proof
    fix c assume "c \<in> set (clients ?s)"
    then have "c \<in> insert ?c (set (clients s))"
      using set_update_subset_insert [of "clients s" "nat (slot l)" ?c] by auto
    moreover have "clients s ! nat (slot l) \<in> set (clients s)"
      using i by simp
    ultimately show "c_alive c \<longrightarrow> c_fd c \<noteq> - 1"
      using assms(6) by auto
  qed
  have b: "broadcast_except ?s ?msg (- 1) = map (\<lambda>c. Send (c_fd c) ?msg) (filter c_alive (clients ?s))"
    using len fds by (rule broadcast_all) simp
  have st: "client_step s l bs =
       (Continue, ?s, l\<lparr>my_name := take 31 newn\<rparr>,
        map (\<lambda>c. Send (c_fd c) ?msg) (filter c_alive (clients ?s))
        @ log_event s (''RENAME id='' @ fmt_d64 (my_id l) @ '' name='' @ take 31 newn))"
    using step_name [OF assms(1,2), of s l] by (simp only: b)
  have sender: "Send (c_fd (clients s ! nat (slot l))) ?msg \<in> set (snd (snd (snd (client_step s l bs))))"
    if "c_alive (clients s ! nat (slot l))"
  proof -
    have "?c \<in> set (clients ?s)"
      using i by (simp add: set_update_memI)
    then have "?c \<in> set (filter c_alive (clients ?s))"
      using that by simp
    then have "Send (c_fd ?c) ?msg \<in> (\<lambda>c. Send (c_fd c) ?msg) ` set (filter c_alive (clients ?s))"
      by (rule imageI)
    then show ?thesis
      by (simp add: st)
  qed
  show ?thesis
    using st sender i by simp
qed

theorem rename_truncates_and_broadcasts_witness:
  "client_step demo_server demo_locals ''/name ABCDEFGHIJKLMNOPQRSTUVWXYZ0123456789\<newline>'' =
     (Continue,
      demo_server\<lparr>clients := (clients demo_server)[0 :=
         \<lparr>c_fd = 4, c_alive = True, c_id = 1, c_name = ''ABCDEFGHIJKLMNOPQRSTUVWXYZ01234''\<rparr>]\<rparr>,
      demo_locals\<lparr>my_name := ''ABCDEFGHIJKLMNOPQRSTUVWXYZ01234''\<rparr>,
      [Send 4 ''[Server] ID 1 is now known as ABCDEFGHIJKLMNOPQRSTUVWXYZ01234\<newline>'',
       Send 5 ''[Server] ID 1 is now known as ABCDEFGHIJKLMNOPQRSTUVWXYZ01234\<newline>'',
       Send 6 ''[Server] ID 1 is now known as ABCDEFGHIJKLMNOPQRSTUVWXYZ01234\<newline>'',
       Log ''RENAME id=1 name=ABCDEFGHIJKLMNOPQRSTUVWXYZ01234''])"
proof -
  have e: "cstr (strip_eol ''/name ABCDEFGHIJKLMNOPQRSTUVWXYZ0123456789\<newline>'')
      = ''/name '' @ ''ABCDEFGHIJKLMNOPQRSTUVWXYZ0123456789''"
    by (simp add: strip_eol_dropWhile cstr_def)
  have n: "''ABCDEFGHIJKLMNOPQRSTUVWXYZ0123456789'' \<noteq> []"
    by simp
  have sl: "0 \<le> slot demo_locals" "slot demo_locals < int MAX_CLIENTS"
    by (simp_all add: demo_locals_def MAX_CLIENTS_def)
  have fds: "\<forall>c\<in>set (clients demo_server). c_alive c \<longrightarrow> c_fd c \<noteq> - 1"
    by (simp add: demo_server_def zero_client_def)
  show ?thesis
    unfolding rename_truncates_and_broadcasts [OF e n demo_length sl fds, THEN conjunct1]
    by (simp add: demo_locals_def demo_server_def fmt_d64_small log_event_def zero_client_def)
qed

section \<open>Private messages\<close>

lemma isdigit_simps: "isdigit c \<Longrightarrow> \<not> isspace c \<and> c \<noteq> CHR ''-'' \<and> c \<noteq> CHR ''+'' \<and> c \<noteq> CHR '' ''"
  by (auto simp: isdigit_def isspace_def)

lemma dec_val_Nil: "dec_val [] = 0"
  by (simp add: dec_val_def)

lemma atoll_digits:
  assumes "ds \<noteq> []" and "\<forall>c\<in>set ds. isdigit c" and "rest = [] \<or> \<not> isdigit (hd rest)"
    and "dec_val ds < 2 ^ 63"
  shows "atoll (ds @ rest) = word_of_nat (dec_val ds)"
proof -
  obtain d ds' where ds: "ds = d # ds'"
    using assms(1) by (cases ds) auto
  have d: "\<not> isspace d" "d \<noteq> CHR ''-''" "d \<noteq> CHR ''+''"
    using assms(2) isdigit_simps [of d] by (auto simp: ds)
  have 1: "dropWhile isspace (ds @ rest) = ds @ rest"
    using d by (simp add: ds)
  have 2: "skip_sign (ds @ rest) = ds @ rest"
    using d by (simp add: ds skip_sign_def)
  have "takeWhile isdigit rest = []"
    using assms(3) by (cases rest) auto
  then have 3: "takeWhile isdigit (ds @ rest) = ds"
    using assms(2) by simp
  have 4: "ds @ rest \<noteq> [] \<and> hd (ds @ rest) = CHR ''-'' \<longleftrightarrow> False"
    using d by (simp add: ds)
  have 5: "max (- (2 ^ 63)) (min (2 ^ 63 - 1) (int (dec_val ds))) = int (dec_val ds)"
    using assms(4) by (simp add: min_def max_def)
  have "atoll (ds @ rest) = word_of_int (max (- (2 ^ 63)) (min (2 ^ 63 - 1) (int (dec_val ds))))"
    unfolding atoll_def Let_def 1 2 3 4 by (simp only: if_False)
  also have "\<dots> = word_of_int (int (dec_val ds))"
    by (simp only: 5)
  also have "\<dots> = word_of_nat (dec_val ds)"
    by simp
  finally show ?thesis .
qed

lemma atoll_no_digits:
  assumes "takeWhile isdigit (skip_sign (dropWhile isspace p)) = []"
  shows "atoll p = 0"
  using assms by (simp add: atoll_def Let_def dec_val_Nil)

lemma find_by_id_Some:
  "find_by_id s tid = Some t \<Longrightarrow> t < MAX_CLIENTS \<and> c_alive (clients s ! t) \<and> c_id (clients s ! t) = tid"
  unfolding find_by_id_def using find_by_id_from_Some [of "clients s" tid "[0..<MAX_CLIENTS]" t] by simp

lemma find_by_id_None:
  "find_by_id s tid = None \<longleftrightarrow> (\<forall>t<MAX_CLIENTS. \<not> (c_alive (clients s ! t) \<and> c_id (clients s ! t) = tid))"
  unfolding find_by_id_def by (auto simp: find_by_id_from_None)

lemma line_length: "length (cstr (strip_eol bs)) \<le> length bs"
proof -
  have "length (cstr (strip_eol bs)) \<le> length (strip_eol bs)"
    unfolding cstr_def by (rule length_takeWhile_le)
  also have "\<dots> \<le> length bs"
    unfolding strip_eol_dropWhile using length_dropWhile_le [of _ "rev bs"] by simp
  finally show ?thesis .
qed

lemma step_msg:
  assumes "cstr (strip_eol bs) = ''/msg '' @ p"
  shows "client_step s l bs =
    (case find_by_id s (atoll p) of
       Some t \<Rightarrow>
         (Continue, s, l,
          send_str (c_fd (clients s ! t)) (snprintf (BUF_SIZE + 64) (''[PM from '' @ my_name l
              @ '' (ID:'' @ fmt_d64 (my_id l) @ '')]: ''
              @ (if dropWhile (\<lambda>c. c \<noteq> CHR '' '') p \<noteq> [] then tl (dropWhile (\<lambda>c. c \<noteq> CHR '' '') p)
                 else dropWhile (\<lambda>c. c \<noteq> CHR '' '') p) @ ''\<newline>''))
          @ send_str (l_fd l) ''[PM sent]\<newline>''
          @ log_event s (''PM from='' @ fmt_d64 (my_id l) @ '' to=''
              @ fmt_d64 (c_id (clients s ! t)) @ '' text=''
              @ (if dropWhile (\<lambda>c. c \<noteq> CHR '' '') p \<noteq> [] then tl (dropWhile (\<lambda>c. c \<noteq> CHR '' '') p)
                 else dropWhile (\<lambda>c. c \<noteq> CHR '' '') p)))
     | None \<Rightarrow> (Continue, s, l, send_str (l_fd l) ''User not found.\<newline>''))"
proof -
  from assms have ne: "bs \<noteq> []" "strip_eol bs \<noteq> []"
    using cstr_nonempty_strip [of bs] by auto
  show ?thesis
    using ne assms by (simp add: client_step_def Let_def strncmp_eq_def)
qed

lemma demo_no_zero: "\<forall>t<MAX_CLIENTS. c_alive (clients demo_server ! t) \<longrightarrow> c_id (clients demo_server ! t) \<noteq> 0"
  by (simp add: demo_server_def zero_client_def nth_append nth_Cons' MAX_CLIENTS_def)

text \<open>
  Claim C6. For a line \<^verbatim>\<open>/msg\<close>, a space, a non-empty run of digits \<open>ds\<close> (whose value
  fits \<^verbatim>\<open>long long\<close>), one space and a text, received in a buffer of at most
  \<^verbatim>\<open>BUF_SIZE - 1\<close> bytes by a thread whose name fits its array: when a live session has
  the id written by \<open>ds\<close>, a live session \<open>t\<close> with that id is sent exactly
  \<^verbatim>\<open>[PM from <name> (ID:<id>)]: <text>\<close> with the text verbatim and untruncated, the
  sender is sent \<^verbatim>\<open>[PM sent]\<close>, the audit record is written and nothing else happens;
  when no live session has that id, the sender is sent \<^verbatim>\<open>User not found.\<close> and nothing
  else happens. The globals and the locals are unchanged and the loop goes on.
\<close>

theorem private_message_routing:
  assumes "cstr (strip_eol bs) = ''/msg '' @ ds @ CHR '' '' # text"
    and "ds \<noteq> []" and "\<forall>c\<in>set ds. isdigit c" and "dec_val ds < 2 ^ 63"
    and "length bs \<le> BUF_SIZE - 1" and "length (my_name l) \<le> NAME_LEN - 1"
  shows "((\<exists>t<MAX_CLIENTS. c_alive (clients s ! t) \<and> c_id (clients s ! t) = word_of_nat (dec_val ds)) \<longrightarrow>
          (\<exists>t<MAX_CLIENTS. c_alive (clients s ! t) \<and> c_id (clients s ! t) = word_of_nat (dec_val ds)
             \<and> client_step s l bs =
                 (Continue, s, l,
                  [Send (c_fd (clients s ! t))
                     (''[PM from '' @ my_name l @ '' (ID:'' @ fmt_d64 (my_id l) @ '')]: '' @ text @ ''\<newline>''),
                   Send (l_fd l) ''[PM sent]\<newline>'']
                  @ log_event s (''PM from='' @ fmt_d64 (my_id l) @ '' to=''
                      @ fmt_d64 (c_id (clients s ! t)) @ '' text='' @ text))))
       \<and> (\<not> (\<exists>t<MAX_CLIENTS. c_alive (clients s ! t) \<and> c_id (clients s ! t) = word_of_nat (dec_val ds)) \<longrightarrow>
          client_step s l bs = (Continue, s, l, [Send (l_fd l) ''User not found.\<newline>'']))"
proof -
  let ?p = "ds @ CHR '' '' # text"
  have tid: "atoll ?p = word_of_nat (dec_val ds)"
    by (rule atoll_digits [OF assms(2,3) _ assms(4)]) (simp add: isdigit_def)
  have "\<forall>c\<in>set ds. c \<noteq> CHR '' ''"
    using assms(3) isdigit_simps by blast
  then have rest: "dropWhile (\<lambda>c. c \<noteq> CHR '' '') ?p = CHR '' '' # text"
    by simp
  have "length (cstr (strip_eol bs)) \<le> 4095"
    using line_length [of bs] assms(5) by (simp add: BUF_SIZE_def)
  then have "length text \<le> 4088"
    using assms(2) by (cases ds) (simp_all add: assms(1))
  then have "length (''[PM from '' @ my_name l @ '' (ID:'' @ fmt_d64 (my_id l) @ '')]: '' @ text @ ''\<newline>'')
      < BUF_SIZE + 64"
    using fmt_d64_length [of "my_id l"] assms(6) by (simp add: BUF_SIZE_def NAME_LEN_def)
  then have fit: "snprintf (BUF_SIZE + 64)
       (''[PM from '' @ my_name l @ '' (ID:'' @ fmt_d64 (my_id l) @ '')]: '' @ text @ ''\<newline>'')
     = ''[PM from '' @ my_name l @ '' (ID:'' @ fmt_d64 (my_id l) @ '')]: '' @ text @ ''\<newline>''"
    by (rule snprintf_fits)
  note st = step_msg [OF assms(1), of s l, unfolded tid rest]
  show ?thesis
  proof (cases "find_by_id s (word_of_nat (dec_val ds))")
    case None
    then have "\<not> (\<exists>t<MAX_CLIENTS. c_alive (clients s ! t) \<and> c_id (clients s ! t) = word_of_nat (dec_val ds))"
      by (simp add: find_by_id_None)
    moreover have "client_step s l bs = (Continue, s, l, [Send (l_fd l) ''User not found.\<newline>''])"
      using st None by (simp add: send_str_def send_all_def)
    ultimately show ?thesis
      by blast
  next
    case (Some t)
    then have t: "t < MAX_CLIENTS" "c_alive (clients s ! t)" "c_id (clients s ! t) = word_of_nat (dec_val ds)"
      using find_by_id_Some [of s _ t] by simp_all
    have "client_step s l bs =
                 (Continue, s, l,
                  [Send (c_fd (clients s ! t))
                     (''[PM from '' @ my_name l @ '' (ID:'' @ fmt_d64 (my_id l) @ '')]: '' @ text @ ''\<newline>''),
                   Send (l_fd l) ''[PM sent]\<newline>'']
                  @ log_event s (''PM from='' @ fmt_d64 (my_id l) @ '' to=''
                      @ fmt_d64 (c_id (clients s ! t)) @ '' text='' @ text))"
      using st Some fit by (simp add: send_str_def send_all_def snprintf_def)
    with t show ?thesis
      by blast
  qed
qed

theorem private_message_routing_witness:
  "client_step demo_server demo_locals ''/msg 3 hi there\<newline>'' =
     (Continue, demo_server, demo_locals,
      [Send 6 ''[PM from Client-1 (ID:1)]: hi there\<newline>'', Send 4 ''[PM sent]\<newline>'',
       Log ''PM from=1 to=3 text=hi there''])
   \<and> client_step demo_server demo_locals ''/msg 7 hi there\<newline>'' =
     (Continue, demo_server, demo_locals, [Send 4 ''User not found.\<newline>''])"
proof -
  have e: "cstr (strip_eol ''/msg 3 hi there\<newline>'') = ''/msg '' @ ''3'' @ CHR '' '' # ''hi there''"
    "cstr (strip_eol ''/msg 7 hi there\<newline>'') = ''/msg '' @ ''7'' @ CHR '' '' # ''hi there''"
    by (simp_all add: strip_eol_dropWhile cstr_def)
  have d: "''3'' \<noteq> []" "\<forall>c\<in>set ''3''. isdigit c" "dec_val ''3'' < 2 ^ 63"
    "''7'' \<noteq> []" "\<forall>c\<in>set ''7''. isdigit c" "dec_val ''7'' < 2 ^ 63"
    by (simp_all add: isdigit_def dec_val_def digit_val_def)
  have v: "dec_val ''3'' = 3" "dec_val ''7'' = 7"
    by (simp_all add: dec_val_def digit_val_def)
  have b: "length ''/msg 3 hi there\<newline>'' \<le> BUF_SIZE - 1" "length ''/msg 7 hi there\<newline>'' \<le> BUF_SIZE - 1"
    "length (my_name demo_locals) \<le> NAME_LEN - 1"
    by (simp_all add: BUF_SIZE_def NAME_LEN_def demo_locals_def)
  have f3: "\<exists>t<MAX_CLIENTS. c_alive (clients demo_server ! t) \<and> c_id (clients demo_server ! t) = word_of_nat (dec_val ''3'')"
    unfolding v by (rule exI [of _ 2]) (simp add: demo_server_def MAX_CLIENTS_def)
  have u3: "t = 2" if "t < MAX_CLIENTS" "c_alive (clients demo_server ! t)" "c_id (clients demo_server ! t) = 3" for t
    using that by (simp add: demo_server_def zero_client_def nth_append nth_Cons' MAX_CLIENTS_def split: if_splits)
  have f7: "\<not> (\<exists>t<MAX_CLIENTS. c_alive (clients demo_server ! t) \<and> c_id (clients demo_server ! t) = word_of_nat (dec_val ''7''))"
    unfolding v by (simp add: demo_server_def zero_client_def nth_append nth_Cons' MAX_CLIENTS_def)
  note t3 = private_message_routing [OF e(1) d(1-3) b(1) b(3), of demo_server, THEN conjunct1, rule_format, OF f3]
  note t7 = private_message_routing [OF e(2) d(4-6) b(2) b(3), of demo_server, THEN conjunct2, rule_format, OF f7]
  from t3 obtain t where t: "t < MAX_CLIENTS" "c_alive (clients demo_server ! t)" "c_id (clients demo_server ! t) = 3"
    and st: "client_step demo_server demo_locals ''/msg 3 hi there\<newline>'' =
                 (Continue, demo_server, demo_locals,
                  [Send (c_fd (clients demo_server ! t))
                     (''[PM from '' @ my_name demo_locals @ '' (ID:'' @ fmt_d64 (my_id demo_locals) @ '')]: '' @ ''hi there'' @ ''\<newline>''),
                   Send (l_fd demo_locals) ''[PM sent]\<newline>'']
                  @ log_event demo_server (''PM from='' @ fmt_d64 (my_id demo_locals) @ '' to=''
                      @ fmt_d64 (c_id (clients demo_server ! t)) @ '' text='' @ ''hi there''))"
    unfolding v by auto
  have t2: "t = 2"
    using t by (rule u3)
  have "client_step demo_server demo_locals ''/msg 3 hi there\<newline>'' =
     (Continue, demo_server, demo_locals,
      [Send 6 ''[PM from Client-1 (ID:1)]: hi there\<newline>'', Send 4 ''[PM sent]\<newline>'',
       Log ''PM from=1 to=3 text=hi there''])"
    unfolding st t2 by (simp add: demo_locals_def demo_server_def fmt_d64_small log_event_def)
  moreover have "client_step demo_server demo_locals ''/msg 7 hi there\<newline>'' =
     (Continue, demo_server, demo_locals, [Send 4 ''User not found.\<newline>''])"
    using t7 by (simp add: demo_locals_def)
  ultimately show ?thesis
    by (rule conjI)
qed

text \<open>
  Claim C7, as the code has it. \<^verbatim>\<open>atoll\<close> skips white space and accepts one sign before
  the digits. When what is left of the id field after that does not begin with a digit,
  the id is 0, and since no live session holds the id 0 the sender is sent
  \<^verbatim>\<open>User not found.\<close> and nothing else happens.
\<close>

theorem msg_id_without_digits:
  assumes "cstr (strip_eol bs) = ''/msg '' @ p"
    and "takeWhile isdigit (skip_sign (dropWhile isspace p)) = []"
    and "\<forall>t<MAX_CLIENTS. c_alive (clients s ! t) \<longrightarrow> c_id (clients s ! t) \<noteq> 0"
  shows "atoll p = 0
    \<and> client_step s l bs = (Continue, s, l, [Send (l_fd l) ''User not found.\<newline>''])"
proof -
  have tid: "atoll p = 0"
    using assms(2) by (rule atoll_no_digits)
  have "find_by_id s 0 = None"
    using assms(3) by (simp add: find_by_id_None)
  then show ?thesis
    using step_msg [OF assms(1), of s l] tid by (simp add: send_str_def send_all_def)
qed

theorem msg_id_without_digits_witness:
  "atoll ''x hi there'' = 0
   \<and> client_step demo_server demo_locals ''/msg x hi there\<newline>'' =
     (Continue, demo_server, demo_locals, [Send 4 ''User not found.\<newline>''])"
proof -
  have e: "cstr (strip_eol ''/msg x hi there\<newline>'') = ''/msg '' @ ''x hi there''"
    by (simp add: strip_eol_dropWhile cstr_def)
  have d: "takeWhile isdigit (skip_sign (dropWhile isspace ''x hi there'')) = []"
    by (simp add: isspace_def skip_sign_def isdigit_def)
  show ?thesis
    using msg_id_without_digits [OF e d demo_no_zero, of demo_locals] by (simp add: demo_locals_def)
qed

text \<open>
  The claim as the specification states it fails: the id field \<^verbatim>\<open>+2\<close> does not begin
  with a digit, yet it is read as 2 and the message is delivered to session 2.
\<close>

theorem msg_signed_id_counterexample:
  "\<not> isdigit (hd ''+2 hi'') \<and> atoll ''+2 hi'' = 2
   \<and> client_step demo_server demo_locals ''/msg +2 hi\<newline>'' =
     (Continue, demo_server, demo_locals,
      [Send 5 ''[PM from Client-1 (ID:1)]: hi\<newline>'', Send 4 ''[PM sent]\<newline>'',
       Log ''PM from=1 to=2 text=hi''])"
proof -
  have e: "cstr (strip_eol ''/msg +2 hi\<newline>'') = ''/msg '' @ ''+2 hi''"
    by (simp add: strip_eol_dropWhile cstr_def)
  have a: "atoll ''+2 hi'' = 2"
    by (simp add: atoll_def isspace_def skip_sign_def isdigit_def dec_val_def digit_val_def)
  have f: "find_by_id demo_server 2 = Some 1"
    unfolding find_by_id_def MAX_CLIENTS_def
    by (simp add: upt_conv_Cons demo_server_def)
  have "client_step demo_server demo_locals ''/msg +2 hi\<newline>'' =
     (Continue, demo_server, demo_locals,
      [Send 5 ''[PM from Client-1 (ID:1)]: hi\<newline>'', Send 4 ''[PM sent]\<newline>'',
       Log ''PM from=1 to=2 text=hi''])"
    unfolding step_msg [OF e] a f
    by (simp add: demo_locals_def demo_server_def fmt_d64_small log_event_def send_str_def send_all_def
        snprintf_def BUF_SIZE_def)
  then show ?thesis
    using a by (simp add: isdigit_def)
qed

section \<open>Identifiers\<close>

lemma find_free_slot_range:
  "0 \<le> find_free_slot s \<Longrightarrow>
     nat (find_free_slot s) < MAX_CLIENTS \<and> \<not> c_alive (clients s ! nat (find_free_slot s))"
  unfolding find_free_slot_def using find_free_from_found [of "clients s" "[0..<MAX_CLIENTS]"] by simp

lemma add_client_fail: "find_free_slot s < 0 \<Longrightarrow> add_client s fd = (s, find_free_slot s)"
  by (simp add: add_client_def)

lemma add_client_ok:
  assumes "0 \<le> find_free_slot s" and "length (clients s) = MAX_CLIENTS"
  shows "snd (add_client s fd) = find_free_slot s"
    and "next_id (fst (add_client s fd)) = next_id s + 1"
    and "length (clients (fst (add_client s fd))) = MAX_CLIENTS"
    and "c_id (clients (fst (add_client s fd)) ! nat (find_free_slot s)) = next_id s"
    and "listen_fd (fst (add_client s fd)) = listen_fd s" and "logf (fst (add_client s fd)) = logf s"
  using assms find_free_slot_range [of s] by (simp_all add: add_client_def Let_def)

lemma remove_client_next_id:
  "next_id (fst (remove_client s sl)) = next_id s"
  "length (clients (fst (remove_client s sl))) = length (clients s)"
  by (simp_all add: remove_client_def)

lemma run_ops_ids:
  assumes "length (clients s) = MAX_CLIENTS"
  shows "snd (run_ops s ops) = map (\<lambda>k. next_id s + word_of_nat k) [0..<length (snd (run_ops s ops))]
    \<and> length (snd (run_ops s ops)) \<le> length ops"
  using assms
proof (induction ops arbitrary: s)
  case Nil
  then show ?case by simp
next
  case (Cons op ops)
  show ?case
  proof (cases op)
    case (Unregister sl)
    have "length (clients (fst (remove_client s sl))) = MAX_CLIENTS"
      using Cons.prems by (simp add: remove_client_next_id)
    from Cons.IH [OF this] show ?thesis
      by (simp add: Unregister remove_client_next_id)
  next
    case (Register fd)
    show ?thesis
    proof (cases "0 \<le> find_free_slot s")
      case False
      then have a: "add_client s fd = (s, find_free_slot s)" and n: "find_free_slot s < 0"
        by (simp_all add: add_client_fail)
      show ?thesis
        using Cons.IH [OF Cons.prems] n by (simp add: Register accept_client_def a)
    next
      case True
      obtain s1 where a: "add_client s fd = (s1, find_free_slot s)"
        using add_client_ok(1) [OF True Cons.prems, of fd] by (cases "add_client s fd") auto
      then have s1: "fst (add_client s fd) = s1"
        by simp
      note ok = add_client_ok [OF True Cons.prems, of fd, unfolded s1]
      let ?ids = "snd (run_ops s1 ops)"
      note ih = Cons.IH [OF ok(3), THEN conjunct1] Cons.IH [OF ok(3), THEN conjunct2]
      have r: "snd (run_ops s (op # ops)) = next_id s # ?ids"
        using True by (simp add: Register accept_client_def a ok(4) split_def Let_def)
      have "map (\<lambda>k. next_id s1 + word_of_nat k) [0..<length ?ids]
          = map (\<lambda>k. next_id s + word_of_nat (Suc k)) [0..<length ?ids]"
        by (simp add: ok(2) add.assoc)
      with ih(1) have "?ids = map (\<lambda>k. next_id s + word_of_nat (Suc k)) [0..<length ?ids]"
        by (rule trans)
      then have "next_id s # ?ids = next_id s # map (\<lambda>k. next_id s + word_of_nat (Suc k)) [0..<length ?ids]"
        by (rule arg_cong [where f = "(#) (next_id s)"])
      also have "\<dots> = map (\<lambda>k. next_id s + word_of_nat k) [0..<Suc (length ?ids)]"
        by (simp only: map_upt_Suc) simp
      finally have e: "next_id s # ?ids = map (\<lambda>k. next_id s + word_of_nat k) [0..<Suc (length ?ids)]" .
      have "snd (run_ops s (op # ops)) =
          map (\<lambda>k. next_id s + word_of_nat k) [0..<length (snd (run_ops s (op # ops)))]"
        unfolding r length_Cons by (rule e)
      moreover have "length (snd (run_ops s (op # ops))) \<le> length (op # ops)"
        unfolding r length_Cons using ih(2) by simp
      ultimately show ?thesis
        by (rule conjI)
    qed
  qed
qed

lemma init_length: "length (clients (init_server lfd lg)) = MAX_CLIENTS"
  by (simp add: init_server_def)

lemma sint_small: "n < 2 ^ 63 \<Longrightarrow> sint (word_of_nat n :: int64_t) = int n"
  by (simp add: signed_of_nat signed_take_bit_int_eq_self)

text \<open>
  Claim C5. From the start of the process, over any sequence of registrations and
  unregistrations (shorter than \<open>2\<^sup>6\<^sup>3 - 1\<close>, so that the 64-bit counter does not
  overflow), the ids given to the registrations that find a slot are 1, 2, 3, ... in
  order of registration: pairwise different, strictly increasing, and never given
  again, whatever slots were freed and reused in between. A registration that finds
  the table full gets no id and does not advance the counter.
\<close>

theorem ids_unique_increasing:
  assumes "length ops < 2 ^ 63 - 1"
  shows "map sint (snd (run_ops (init_server lfd lg) ops))
           = map int [1..<Suc (length (snd (run_ops (init_server lfd lg) ops)))]
    \<and> distinct (snd (run_ops (init_server lfd lg) ops))
    \<and> sorted_wrt (\<lambda>a b. sint a < sint b) (snd (run_ops (init_server lfd lg) ops))"
proof -
  let ?ids = "snd (run_ops (init_server lfd lg) ops)"
  have nx: "next_id (init_server lfd lg) = 1"
    by (simp add: init_server_def)
  note ids = run_ops_ids [OF init_length, of lfd lg ops, THEN conjunct1, unfolded nx]
    and n = run_ops_ids [OF init_length, of lfd lg ops, THEN conjunct2]
  have "map sint ?ids = map sint (map (\<lambda>k. 1 + word_of_nat k :: int64_t) [0..<length ?ids])"
    using ids by (rule arg_cong [where f = "map sint"])
  also have "\<dots> = map (\<lambda>k. sint (1 + word_of_nat k :: int64_t)) [0..<length ?ids]"
    by (simp add: comp_def)
  also have "\<dots> = map (\<lambda>k. int (Suc k)) [0..<length ?ids]"
  proof (rule map_cong [OF refl])
    fix k assume "k \<in> set [0..<length ?ids]"
    then have "Suc k < 2 ^ 63"
      using n assms by simp
    then have "sint (word_of_nat (Suc k) :: int64_t) = int (Suc k)"
      by (rule sint_small)
    then show "sint (1 + word_of_nat k :: int64_t) = int (Suc k)"
      by simp
  qed
  also have "\<dots> = map int [1..<Suc (length ?ids)]"
    by (simp add: map_Suc_upt [symmetric] del: upt_Suc)
  finally have 1: "map sint ?ids = map int [1..<Suc (length ?ids)]" .
  have "distinct (map sint ?ids)"
    unfolding 1 by (simp add: distinct_map del: upt_Suc)
  then have 2: "distinct ?ids"
    by (simp add: distinct_map)
  have "sorted_wrt (<) (map sint ?ids)"
    unfolding 1 by (simp add: sorted_wrt_map del: upt_Suc)
  then have 3: "sorted_wrt (\<lambda>a b. sint a < sint b) ?ids"
    by (simp add: sorted_wrt_map)
  from 1 2 3 show ?thesis
    by (intro conjI)
qed

theorem ids_unique_increasing_witness:
  "map sint (snd (run_ops (init_server 3 True) [Register 4, Register 5, Unregister 0, Register 6]))
     = [1, 2, 3]"
proof -
  have h: "length [Register 4, Register 5, Unregister 0, Register 6] < 2 ^ 63 - 1"
    by simp
  have len: "length (snd (run_ops (init_server 3 True) [Register 4, Register 5, Unregister 0, Register 6])) = 3"
    by code_simp
  have u: "map int [1..<Suc 3] = [1, 2, 3]"
    by code_simp
  show ?thesis
    unfolding ids_unique_increasing [OF h, of 3 True, THEN conjunct1] len by (rule u)
qed

section \<open>The invariant of the registry\<close>

lemma demo_reachable:
  "fst (run_ops (init_server 3 True) [Register 4, Register 5, Register 6]) = demo_server"
  by code_simp

lemma filter_update:
  "k < length xs \<Longrightarrow>
     filter P (xs[k := y]) = filter P (take k xs) @ (if P y then [y] else []) @ filter P (drop (Suc k) xs)"
  by (simp add: upd_conv_take_nth_drop)

lemma filter_nth_split:
  assumes "k < length xs"
  shows "filter P xs = filter P (take k xs) @ (if P (xs ! k) then [xs ! k] else []) @ filter P (drop (Suc k) xs)"
proof -
  have "xs = take k xs @ xs ! k # drop (Suc k) xs"
    using assms by (rule id_take_nth_drop)
  then have "filter P xs = filter P (take k xs @ xs ! k # drop (Suc k) xs)"
    by (rule arg_cong [where f = "filter P"])
  then show ?thesis
    by simp
qed

lemma update_ball:
  assumes "P y" and "\<forall>x\<in>set xs. P x"
  shows "\<forall>x\<in>set (xs[k := y]). P x"
proof
  fix x assume "x \<in> set (xs[k := y])"
  then have "x = y \<or> x \<in> set xs"
    using set_update_subset_insert [of xs k y] by auto
  then show "P x"
    using assms by auto
qed

lemma init_inv: "registry_inv (init_server lfd lg) \<and> ids_below (init_server lfd lg)"
  by (simp add: registry_inv_def ids_below_def init_server_def zero_client_def)

lemma sint_succ:
  assumes "sint (w :: int64_t) < 2 ^ 63 - 1"
  shows "sint (w + 1) = sint w + 1"
proof -
  have "- (2 ^ 63) \<le> sint w"
    using sint_ge [of w] by simp
  then have "sint (w + 1) = signed_take_bit 63 (sint w + 1)"
    by (simp add: sint_word_ariths)
  also have "\<dots> = sint w + 1"
    using assms \<open>- (2 ^ 63) \<le> sint w\<close> by (intro signed_take_bit_int_eq_self) simp_all
  finally show ?thesis .
qed

lemma add_client_inv:
  assumes "registry_inv s" and "ids_below s" and "sint (next_id s) < 2 ^ 63 - 1"
  shows "registry_inv (fst (add_client s fd)) \<and> ids_below (fst (add_client s fd))"
proof (cases "0 \<le> find_free_slot s")
  case False
  then show ?thesis
    using assms by (simp add: add_client_def)
next
  case True
  let ?k = "nat (find_free_slot s)"
  let ?c = "(clients s ! ?k)\<lparr>c_fd := fd, c_alive := True, c_id := next_id s,
                 c_name := snprintf NAME_LEN (''Client-'' @ fmt_d64 (next_id s))\<rparr>"
  have len: "length (clients s) = MAX_CLIENTS"
    using assms(1) by (simp add: registry_inv_def)
  have k: "?k < length (clients s)" and dead: "\<not> c_alive (clients s ! ?k)"
    using find_free_slot_range [OF True] len by simp_all
  have s': "fst (add_client s fd) = s\<lparr>clients := (clients s)[?k := ?c], next_id := next_id s + 1\<rparr>"
    using True by (simp add: add_client_def Let_def)
  have old: "filter c_alive (clients s) = filter c_alive (take ?k (clients s)) @ filter c_alive (drop (Suc ?k) (clients s))"
    using filter_nth_split [OF k, of c_alive] dead by simp
  have new: "filter c_alive ((clients s)[?k := ?c]) =
      filter c_alive (take ?k (clients s)) @ ?c # filter c_alive (drop (Suc ?k) (clients s))"
    using filter_update [OF k, of c_alive ?c] by simp
  have below: "\<forall>c\<in>set (filter c_alive (clients s)). 0 < sint (c_id c) \<and> sint (c_id c) < sint (next_id s)"
    using assms(2) by (simp add: ids_below_def)
  then have fresh: "next_id s \<notin> c_id ` set (filter c_alive (clients s))"
    by auto
  have d: "distinct (map c_id (filter c_alive (clients s)))"
    using assms(1) by (simp add: registry_inv_def)
  have d': "distinct (map c_id (filter c_alive ((clients s)[?k := ?c])))"
    using d fresh unfolding old new by auto
  have reset: "\<forall>c\<in>set ((clients s)[?k := ?c]). \<not> c_alive c \<longrightarrow> c_name c = [] \<and> c_id c = 0"
    using assms(1) by (intro update_ball) (simp_all add: registry_inv_def)
  have n: "sint (next_id s + 1) = sint (next_id s) + 1"
    using assms(3) by (rule sint_succ)
  have b': "\<forall>c\<in>set ((clients s)[?k := ?c]). c_alive c \<longrightarrow>
      0 < sint (c_id c) \<and> sint (c_id c) < sint (next_id s) + 1"
    using assms(2) by (intro update_ball) (auto simp: ids_below_def)
  have le: "length (filter c_alive ((clients s)[?k := ?c])) \<le> MAX_CLIENTS"
    using length_filter_le [of c_alive "(clients s)[?k := ?c]"] len by simp
  have "registry_inv (fst (add_client s fd))"
    unfolding s' registry_inv_def using len d' reset le by simp
  moreover have "ids_below (fst (add_client s fd))"
    unfolding s' ids_below_def using b' assms(2) by (simp add: n ids_below_def)
  ultimately show ?thesis
    by (rule conjI)
qed

lemma remove_client_inv:
  assumes "registry_inv s" and "ids_below s"
  shows "registry_inv (fst (remove_client s sl)) \<and> ids_below (fst (remove_client s sl))"
proof (cases "sl \<ge> 0 \<and> sl < int MAX_CLIENTS \<and> c_alive (clients s ! nat sl)")
  case False
  then have "remove_client s sl = (s, [])"
    by (auto simp: remove_client_def)
  then show ?thesis
    using assms by simp
next
  case True
  let ?k = "nat sl"
  let ?c = "(clients s ! ?k)\<lparr>c_alive := False, c_name := [], c_id := 0\<rparr>"
  have len: "length (clients s) = MAX_CLIENTS"
    using assms(1) by (simp add: registry_inv_def)
  have k: "?k < length (clients s)"
    using True len by (simp add: nat_less_iff)
  have s': "fst (remove_client s sl) = s\<lparr>clients := (clients s)[?k := ?c]\<rparr>"
    using True by (simp add: remove_client_def)
  have old: "filter c_alive (clients s) =
      filter c_alive (take ?k (clients s)) @ clients s ! ?k # filter c_alive (drop (Suc ?k) (clients s))"
    using filter_nth_split [OF k, of c_alive] True by simp
  have new: "filter c_alive ((clients s)[?k := ?c]) =
      filter c_alive (take ?k (clients s)) @ filter c_alive (drop (Suc ?k) (clients s))"
    using filter_update [OF k, of c_alive ?c] by simp
  have d: "distinct (map c_id (filter c_alive (clients s)))"
    using assms(1) by (simp add: registry_inv_def)
  have d': "distinct (map c_id (filter c_alive ((clients s)[?k := ?c])))"
    using d unfolding old new by auto
  have reset: "\<forall>c\<in>set ((clients s)[?k := ?c]). \<not> c_alive c \<longrightarrow> c_name c = [] \<and> c_id c = 0"
    using assms(1) by (intro update_ball) (simp_all add: registry_inv_def)
  have b': "\<forall>c\<in>set ((clients s)[?k := ?c]). c_alive c \<longrightarrow>
      0 < sint (c_id c) \<and> sint (c_id c) < sint (next_id s)"
    using assms(2) by (intro update_ball) (simp_all add: ids_below_def)
  have le: "length (filter c_alive ((clients s)[?k := ?c])) \<le> MAX_CLIENTS"
    using length_filter_le [of c_alive "(clients s)[?k := ?c]"] len by simp
  have "registry_inv (fst (remove_client s sl))"
    unfolding s' registry_inv_def using len d' reset le by simp
  moreover have "ids_below (fst (remove_client s sl))"
    unfolding s' ids_below_def using b' assms(2) by (simp add: ids_below_def)
  ultimately show ?thesis
    by (rule conjI)
qed

lemma rename_inv:
  assumes "registry_inv s" and "ids_below s" and "k < MAX_CLIENTS" and "c_alive (clients s ! k)"
  shows "registry_inv (s\<lparr>clients := (clients s)[k := (clients s ! k)\<lparr>c_name := n\<rparr>]\<rparr>)
    \<and> ids_below (s\<lparr>clients := (clients s)[k := (clients s ! k)\<lparr>c_name := n\<rparr>]\<rparr>)"
proof -
  let ?c = "(clients s ! k)\<lparr>c_name := n\<rparr>"
  have len: "length (clients s) = MAX_CLIENTS"
    using assms(1) by (simp add: registry_inv_def)
  have k: "k < length (clients s)"
    using assms(3) len by simp
  have mem: "clients s ! k \<in> set (clients s)"
    using k by simp
  have old: "filter c_alive (clients s) =
      filter c_alive (take k (clients s)) @ clients s ! k # filter c_alive (drop (Suc k) (clients s))"
    using filter_nth_split [OF k, of c_alive] assms(4) by simp
  have new: "filter c_alive ((clients s)[k := ?c]) =
      filter c_alive (take k (clients s)) @ ?c # filter c_alive (drop (Suc k) (clients s))"
    using filter_update [OF k, of c_alive ?c] assms(4) by simp
  have d: "distinct (map c_id (filter c_alive (clients s)))"
    using assms(1) by (simp add: registry_inv_def)
  have d': "distinct (map c_id (filter c_alive ((clients s)[k := ?c])))"
    using d unfolding old new by simp
  have reset: "\<forall>c\<in>set ((clients s)[k := ?c]). \<not> c_alive c \<longrightarrow> c_name c = [] \<and> c_id c = 0"
    using assms(1,4) by (intro update_ball) (simp_all add: registry_inv_def)
  have b': "\<forall>c\<in>set ((clients s)[k := ?c]). c_alive c \<longrightarrow>
      0 < sint (c_id c) \<and> sint (c_id c) < sint (next_id s)"
    using assms(2) mem by (intro update_ball) (simp_all add: ids_below_def)
  have le: "length (filter c_alive ((clients s)[k := ?c])) \<le> MAX_CLIENTS"
    using length_filter_le [of c_alive "(clients s)[k := ?c]"] len by simp
  have "registry_inv (s\<lparr>clients := (clients s)[k := ?c]\<rparr>)"
    unfolding registry_inv_def using len d' reset le by simp
  moreover have "ids_below (s\<lparr>clients := (clients s)[k := ?c]\<rparr>)"
    unfolding ids_below_def using b' assms(2) by (simp add: ids_below_def)
  ultimately show ?thesis
    by (rule conjI)
qed

lemma client_step_state:
  "fst (snd (client_step s l bs)) = s
   \<or> (\<exists>n. fst (snd (client_step s l bs)) =
         s\<lparr>clients := (clients s)[nat (slot l) := (clients s ! nat (slot l))\<lparr>c_name := n\<rparr>]\<rparr>)"
  by (auto simp: client_step_def Let_def split: option.splits)

lemma client_step_inv:
  assumes "registry_inv s" and "ids_below s" and "0 \<le> slot l" and "slot l < int MAX_CLIENTS"
    and "c_alive (clients s ! nat (slot l))"
  shows "registry_inv (fst (snd (client_step s l bs))) \<and> ids_below (fst (snd (client_step s l bs)))"
proof -
  have k: "nat (slot l) < MAX_CLIENTS"
    using assms(3,4) by (simp add: nat_less_iff)
  show ?thesis
    using client_step_state [of s l bs] rename_inv [OF assms(1,2) k assms(5)] assms(1,2) by auto
qed

lemma add_client_next_id_le:
  assumes "sint (next_id s) < 2 ^ 63 - 1"
  shows "sint (next_id (fst (add_client s fd))) \<le> sint (next_id s) + 1"
  using sint_succ [OF assms] by (simp add: add_client_def Let_def)

lemma run_ops_inv:
  assumes "registry_inv s" and "ids_below s" and "sint (next_id s) + int (length ops) < 2 ^ 63"
  shows "registry_inv (fst (run_ops s ops)) \<and> ids_below (fst (run_ops s ops))"
  using assms
proof (induction ops arbitrary: s)
  case Nil
  then show ?case by simp
next
  case (Cons op ops)
  show ?case
  proof (cases op)
    case (Unregister sl)
    have "registry_inv (fst (remove_client s sl)) \<and> ids_below (fst (remove_client s sl))"
      using Cons.prems(1,2) by (rule remove_client_inv)
    moreover have "sint (next_id (fst (remove_client s sl))) + int (length ops) < 2 ^ 63"
      using Cons.prems(3) by (simp add: remove_client_next_id)
    ultimately show ?thesis
      using Cons.IH [of "fst (remove_client s sl)"] by (simp add: Unregister)
  next
    case (Register fd)
    have b: "sint (next_id s) < 2 ^ 63 - 1"
      using Cons.prems(3) by simp
    have "registry_inv (fst (add_client s fd)) \<and> ids_below (fst (add_client s fd))"
      using Cons.prems(1,2) b by (rule add_client_inv)
    moreover have "sint (next_id (fst (add_client s fd))) + int (length ops) < 2 ^ 63"
      using add_client_next_id_le [OF b, of fd] Cons.prems(3) by simp
    ultimately have "registry_inv (fst (run_ops (fst (add_client s fd)) ops))
        \<and> ids_below (fst (run_ops (fst (add_client s fd)) ops))"
      using Cons.IH [of "fst (add_client s fd)"] by simp
    moreover have "fst (run_ops s (op # ops)) = fst (run_ops (fst (add_client s fd)) ops)"
      by (simp add: Register accept_client_def split_def Let_def split: option.splits)
    ultimately show ?thesis
      by simp
  qed
qed

lemma reachable_inv:
  assumes "length ops < 2 ^ 63 - 1"
  shows "registry_inv (fst (run_ops (init_server lfd lg) ops))
    \<and> ids_below (fst (run_ops (init_server lfd lg) ops))"
proof -
  have "sint (next_id (init_server lfd lg)) + int (length ops) < 2 ^ 63"
    using assms by (simp add: init_server_def)
  then show ?thesis
    using init_inv [of lfd lg] by (intro run_ops_inv) simp_all
qed

lemma ids_below_no_zero:
  assumes "ids_below s" and "length (clients s) = MAX_CLIENTS"
  shows "\<forall>t<MAX_CLIENTS. c_alive (clients s ! t) \<longrightarrow> c_id (clients s ! t) \<noteq> 0"
proof (intro allI impI)
  fix t assume "t < MAX_CLIENTS" "c_alive (clients s ! t)"
  then have "0 < sint (c_id (clients s ! t))"
    using assms by (simp add: ids_below_def)
  then show "c_id (clients s ! t) \<noteq> 0"
    by auto
qed

lemma reachable_no_zero_id:
  assumes "length ops < 2 ^ 63 - 1" and "t < MAX_CLIENTS"
    and "c_alive (clients (fst (run_ops (init_server lfd lg) ops)) ! t)"
  shows "c_id (clients (fst (run_ops (init_server lfd lg) ops)) ! t) \<noteq> 0"
proof -
  have "registry_inv (fst (run_ops (init_server lfd lg) ops))"
    and "ids_below (fst (run_ops (init_server lfd lg) ops))"
    using reachable_inv [OF assms(1), of lfd lg] by simp_all
  then show ?thesis
    using ids_below_no_zero [of "fst (run_ops (init_server lfd lg) ops)"] assms(2,3)
    by (simp add: registry_inv_def)
qed

lemma demo_locals_start: "fst (client_start demo_server 0) = demo_locals"
  by (simp add: client_start_def Let_def demo_server_def demo_locals_def snprintf_def NAME_LEN_def)

lemma demo_inv: "registry_inv demo_server"
  by (simp add: registry_inv_def demo_server_def zero_client_def MAX_CLIENTS_def)

lemma shutdown_breaks_inv: "\<not> registry_inv (fst (shutdown_server demo_server))"
  unfolding shutdown_server_eq [OF demo_length]
  by (simp add: registry_inv_def demo_server_def)

text \<open>
  Claim C9. \<^verbatim>\<open>add_client\<close>, \<^verbatim>\<open>remove_client\<close> and the rename of a live session keep the
  invariant (lemmas \<open>add_client_inv\<close>, \<open>remove_client_inv\<close> and \<open>client_step_inv\<close>;
  \<^verbatim>\<open>find_by_id\<close>, \<^verbatim>\<open>broadcast_except\<close> and \<^verbatim>\<open>list_users\<close> do not write the table), and
  every state reached by registrations and unregistrations has it (\<open>reachable_inv\<close>).
  \<^verbatim>\<open>shutdown_server\<close> does not: it marks a slot dead and leaves its id and its name,
  where \<^verbatim>\<open>remove_client\<close> on the same slot clears both.
\<close>

theorem shutdown_leaves_identity:
  "clients (fst (shutdown_server demo_server)) ! 0
     = \<lparr>c_fd = 4, c_alive = False, c_id = 1, c_name = ''Client-1''\<rparr>
   \<and> clients (fst (remove_client demo_server 0)) ! 0
     = \<lparr>c_fd = 4, c_alive = False, c_id = 0, c_name = []\<rparr>"
proof -
  have "clients (fst (shutdown_server demo_server)) ! 0
     = \<lparr>c_fd = 4, c_alive = False, c_id = 1, c_name = ''Client-1''\<rparr>"
    unfolding shutdown_server_eq [OF demo_length] by (simp add: demo_server_def)
  moreover have "clients (fst (remove_client demo_server 0)) ! 0
     = \<lparr>c_fd = 4, c_alive = False, c_id = 0, c_name = []\<rparr>"
    by (simp add: remove_client_def MAX_CLIENTS_def demo_server_def)
  ultimately show ?thesis
    by (rule conjI)
qed

section \<open>The listing\<close>

lemma snprintf_at_fits:
  "pos = length out \<Longrightarrow> pos + length text < sz \<Longrightarrow>
     snprintf_at out pos sz text = (out @ text, pos + length text)"
  by (simp add: snprintf_at_def)

lemma lines_of_table:
  "concat (map (\<lambda>i. if c_alive (cs ! i) then user_line (cs ! i) else []) [0..<length cs])
     = concat (map user_line (filter c_alive cs))"
proof -
  have "map (\<lambda>i. (\<lambda>c. if c_alive c then user_line c else []) (cs ! i)) [0..<length cs]
      = map (\<lambda>c. if c_alive c then user_line c else []) cs"
    by (rule map_index_nth)
  moreover have "concat (map (\<lambda>c. if c_alive c then user_line c else []) xs)
      = concat (map user_line (filter c_alive xs))" for xs
    by (induction xs) simp_all
  ultimately show ?thesis
    by simp
qed

lemma user_line_length: "length (c_name c) \<le> 31 \<Longrightarrow> length (user_line c) \<le> 57"
  using fmt_d64_length [of "c_id c"] by (simp add: user_line_def)

lemma concat_length_le:
  "\<forall>x\<in>set xs. length (g x) \<le> k \<Longrightarrow> length (concat (map g xs)) \<le> k * length xs"
  by (induction xs) auto

lemma concat_length_ge:
  "\<forall>x\<in>set xs. k \<le> length (g x) \<Longrightarrow> k * length xs \<le> length (concat (map g xs))"
  by (induction xs) auto

lemma list_users_pos_bound:
  assumes "\<forall>i\<in>set is. length (c_name (cs ! i)) \<le> 31" and "pos \<le> 4088"
  shows "snd (list_loop cs is (out, pos)) \<le> 4088"
  using assms
proof (induction "is" arbitrary: out pos)
  case Nil
  then show ?case by simp
next
  case (Cons i "is")
  show ?case
  proof (cases "pos + 64 < 4096 \<and> c_alive (cs ! i)")
    case True
    have "length (user_line (cs ! i)) \<le> 57"
      using Cons.prems(1) by (simp add: user_line_length)
    then have "pos + length (user_line (cs ! i)) \<le> 4088"
      using True by simp
    moreover have "\<forall>i\<in>set is. length (c_name (cs ! i)) \<le> 31"
      using Cons.prems(1) by simp
    ultimately have "snd (list_loop cs is (take pos out @ take (4096 - pos - 1) (user_line (cs ! i)),
        pos + length (user_line (cs ! i)))) \<le> 4088"
      by (intro Cons.IH)
    then show ?thesis
      using True by (simp add: snprintf_at_def)
  next
    case False
    have "\<forall>i\<in>set is. length (c_name (cs ! i)) \<le> 31"
      using Cons.prems(1) by simp
    then have "snd (list_loop cs is (out, pos)) \<le> 4088"
      using Cons.prems(2) by (intro Cons.IH)
    then show ?thesis
      using False Cons.prems(2) by auto
  qed
qed

lemma snprintf_at_length:
  "length out \<le> 4095 \<Longrightarrow> length (fst (snprintf_at out pos 4096 text)) \<le> 4095"
  by (auto simp: snprintf_at_def min_def)

lemma list_loop_length:
  "length out \<le> 4095 \<Longrightarrow> length (fst (list_loop cs is (out, pos))) \<le> 4095"
proof (induction "is" arbitrary: out pos)
  case Nil
  then show ?case by simp
next
  case (Cons i "is")
  obtain out' pos' where sn: "snprintf_at out pos 4096 (user_line (cs ! i)) = (out', pos')"
    by (cases "snprintf_at out pos 4096 (user_line (cs ! i))")
  have "length out' \<le> 4095"
    using snprintf_at_length [OF Cons.prems, of pos "user_line (cs ! i)"] by (simp add: sn)
  then have "length (fst (list_loop cs is (out', pos'))) \<le> 4095"
    by (rule Cons.IH)
  moreover have "length (fst (list_loop cs is (out, pos))) \<le> 4095"
    using Cons.prems by (rule Cons.IH)
  ultimately show ?case
    using Cons.prems by (simp add: sn)
qed

lemma list_users_out_length: "length (list_users_out s) \<le> 4095"
proof -
  obtain out pos where l: "list_loop (clients s) [0..<MAX_CLIENTS] (list_header, 24) = (out, pos)"
    by (cases "list_loop (clients s) [0..<MAX_CLIENTS] (list_header, 24)")
  have h: "snprintf_at [] 0 4096 list_header = (list_header, 24)"
    by (simp add: snprintf_at_def list_header_def)
  have "length list_header \<le> 4095"
    by (simp add: list_header_def)
  then have "length (fst (list_loop (clients s) [0..<MAX_CLIENTS] (list_header, 24))) \<le> 4095"
    by (rule list_loop_length)
  then have "length out \<le> 4095"
    by (simp add: l)
  then have "length (fst (snprintf_at out pos 4096 list_footer)) \<le> 4095"
    by (rule snprintf_at_length)
  moreover have "list_users_out s = fst (snprintf_at out pos 4096 list_footer)"
    by (simp add: list_users_out_def h l split_def)
  ultimately show ?thesis
    by simp
qed

lemma lines_of_prefix:
  assumes "m \<le> length cs"
  shows "concat (map (\<lambda>i. if c_alive (cs ! i) then user_line (cs ! i) else []) [0..<m])
     = concat (map user_line (filter c_alive (take m cs)))"
proof -
  have a: "map (\<lambda>i. if c_alive (cs ! i) then user_line (cs ! i) else []) [0..<m]
      = map (\<lambda>i. if c_alive (take m cs ! i) then user_line (take m cs ! i) else []) [0..<m]"
    by (rule map_cong) simp_all
  have l: "length (take m cs) = m"
    using assms by simp
  show ?thesis
    unfolding a by (rule lines_of_table [of "take m cs", unfolded l])
qed

lemma list_loop_prefix:
  assumes "pos = length out"
    and "\<forall>i\<in>set is. length (c_name (cs ! i)) \<le> 31"
    and "\<forall>m<length is. pos + length (concat (map (\<lambda>i. if c_alive (cs ! i) then user_line (cs ! i) else [])
            (take m is))) < 4032"
  shows "list_loop cs (is @ js) (out, pos) =
     list_loop cs js
       (out @ concat (map (\<lambda>i. if c_alive (cs ! i) then user_line (cs ! i) else []) is),
        pos + length (concat (map (\<lambda>i. if c_alive (cs ! i) then user_line (cs ! i) else []) is)))"
  using assms
proof (induction "is" arbitrary: out pos)
  case Nil
  then show ?case by simp
next
  case (Cons i "is")
  let ?L = "\<lambda>xs. concat (map (\<lambda>i. if c_alive (cs ! i) then user_line (cs ! i) else []) xs)"
  let ?line = "if c_alive (cs ! i) then user_line (cs ! i) else []"
  have guard: "pos + 64 < 4096"
    using Cons.prems(3) [rule_format, of 0] by simp
  have "length (user_line (cs ! i)) \<le> 57"
    using Cons.prems(2) by (simp add: user_line_length)
  then have fits: "pos + length (user_line (cs ! i)) < 4096"
    using guard by simp
  have names: "\<forall>i\<in>set is. length (c_name (cs ! i)) \<le> 31"
    using Cons.prems(2) by simp
  have rest: "\<forall>m<length is. (pos + length ?line) + length (?L (take m is)) < 4032"
  proof (intro allI impI)
    fix m assume "m < length is"
    then have "pos + length (?L (take (Suc m) (i # is))) < 4032"
      using Cons.prems(3) by (intro Cons.prems(3) [rule_format]) simp
    then show "(pos + length ?line) + length (?L (take m is)) < 4032"
      by simp
  qed
  have len: "pos + length ?line = length (out @ ?line)"
    using Cons.prems(1) by simp
  have ih: "list_loop cs (is @ js) (out @ ?line, pos + length ?line) =
      list_loop cs js ((out @ ?line) @ ?L is, (pos + length ?line) + length (?L is))"
    using len names rest by (rule Cons.IH)
  show ?case
  proof (cases "c_alive (cs ! i)")
    case True
    have sn: "snprintf_at out pos 4096 (user_line (cs ! i))
        = (out @ user_line (cs ! i), pos + length (user_line (cs ! i)))"
      using Cons.prems(1) fits by (rule snprintf_at_fits)
    show ?thesis
      using True guard ih by (simp add: sn add.assoc)
  next
    case False
    then show ?thesis
      using guard ih by (simp add: add.assoc)
  qed
qed

lemma list_loop_stop: "\<not> pos + 64 < 4096 \<Longrightarrow> list_loop cs js (out, pos) = (out, pos)"
  by (cases js) simp_all

lemma listed_bytes_Suc:
  assumes "k < length (clients s)" and "length (c_name (clients s ! k)) \<le> 31"
  shows "listed_bytes s k \<le> listed_bytes s (Suc k)" and "listed_bytes s (Suc k) \<le> listed_bytes s k + 57"
  using assms user_line_length [of "clients s ! k"]
  by (simp_all add: listed_bytes_def take_Suc_conv_app_nth)

lemma listed_bytes_mono:
  assumes "j \<le> k"
  shows "listed_bytes s j \<le> listed_bytes s k"
proof -
  have "take k (clients s) = take j (clients s) @ take (k - j) (drop j (clients s))"
    using assms by (metis le_add_diff_inverse take_add)
  then show ?thesis
    by (simp add: listed_bytes_def)
qed

lemma listed_bytes_bound:
  assumes "length (clients s) = MAX_CLIENTS" and "\<forall>c\<in>set (clients s). length (c_name c) \<le> 31"
    and "k \<le> MAX_CLIENTS" and "\<forall>j<k. listed_bytes s j < 4032"
  shows "listed_bytes s k \<le> 4088"
proof (cases k)
  case 0
  then show ?thesis
    by (simp add: listed_bytes_def list_header_def)
next
  case (Suc j)
  then have j: "j < length (clients s)"
    using assms(1,3) by simp
  then have "length (c_name (clients s ! j)) \<le> 31"
    using assms(2) by simp
  then have "listed_bytes s (Suc j) \<le> listed_bytes s j + 57"
    using j by (intro listed_bytes_Suc)
  moreover have "listed_bytes s j < 4032"
    using assms(4) Suc by simp
  ultimately show ?thesis
    using Suc by simp
qed

lemma list_users_out_eq:
  assumes "length (clients s) = MAX_CLIENTS" and "\<forall>c\<in>set (clients s). length (c_name c) \<le> 31"
    and "k \<le> MAX_CLIENTS" and "\<forall>j<k. listed_bytes s j < 4032"
    and "k = MAX_CLIENTS \<or> 4032 \<le> listed_bytes s k"
  shows "list_users_out s =
     take 4095 (list_header @ concat (map user_line (filter c_alive (take k (clients s)))) @ list_footer)"
proof -
  let ?cs = "clients s"
  let ?L = "\<lambda>xs. concat (map (\<lambda>i. if c_alive (?cs ! i) then user_line (?cs ! i) else []) xs)"
  let ?lines = "concat (map user_line (filter c_alive (take k ?cs)))"
  have kl: "k \<le> length ?cs"
    using assms(1,3) by simp
  have h: "snprintf_at [] 0 4096 list_header = (list_header, length list_header)"
    by (simp add: snprintf_at_def list_header_def)
  have Lk: "?L [0..<k] = ?lines"
    using kl by (rule lines_of_prefix)
  have names: "\<forall>i\<in>set [0..<k]. length (c_name (?cs ! i)) \<le> 31"
    using assms(2) kl by simp
  have before: "\<forall>m<length [0..<k]. length list_header + length (?L (take m [0..<k])) < 4032"
  proof (intro allI impI)
    fix m assume "m < length [0..<k]"
    then have m: "m < k"
      by simp
    then have "take m [0..<k] = [0..<m]"
      by (simp add: take_upt)
    moreover have "?L [0..<m] = concat (map user_line (filter c_alive (take m ?cs)))"
      using m kl by (intro lines_of_prefix) simp
    moreover have "listed_bytes s m < 4032"
      using assms(4) m by simp
    ultimately show "length list_header + length (?L (take m [0..<k])) < 4032"
      by (simp add: listed_bytes_def)
  qed
  have split: "[0..<MAX_CLIENTS] = [0..<k] @ [k..<MAX_CLIENTS]"
    using upt_add_eq_append [of 0 k "MAX_CLIENTS - k"] assms(3) by simp
  have "list_loop ?cs ([0..<k] @ [k..<MAX_CLIENTS]) (list_header, length list_header) =
      list_loop ?cs [k..<MAX_CLIENTS] (list_header @ ?L [0..<k], length list_header + length (?L [0..<k]))"
    using refl names before by (rule list_loop_prefix)
  then have 1: "list_loop ?cs [0..<MAX_CLIENTS] (list_header, length list_header) =
      list_loop ?cs [k..<MAX_CLIENTS] (list_header @ ?lines, listed_bytes s k)"
    unfolding Lk by (simp only: split [symmetric] listed_bytes_def)
  have 2: "list_loop ?cs [k..<MAX_CLIENTS] (list_header @ ?lines, listed_bytes s k)
      = (list_header @ ?lines, listed_bytes s k)"
  proof (cases "k = MAX_CLIENTS")
    case True
    then show ?thesis by simp
  next
    case False
    then have "\<not> listed_bytes s k + 64 < 4096"
      using assms(5) by simp
    then show ?thesis
      by (rule list_loop_stop)
  qed
  have b: "listed_bytes s k \<le> 4088"
    using assms(1-4) by (rule listed_bytes_bound)
  have l: "length (list_header @ ?lines) = listed_bytes s k"
    by (simp add: listed_bytes_def)
  have f: "snprintf_at (list_header @ ?lines) (listed_bytes s k) 4096 list_footer =
      ((list_header @ ?lines) @ take (4095 - listed_bytes s k) list_footer,
       listed_bytes s k + length list_footer)"
    using l by (simp add: snprintf_at_def)
  have "list_users_out s = (list_header @ ?lines) @ take (4095 - listed_bytes s k) list_footer"
    by (simp add: list_users_out_def h 1 2 f)
  also have "\<dots> = take 4095 ((list_header @ ?lines) @ list_footer)"
    using b l by (simp only: take_append) simp
  finally show ?thesis
    by simp
qed

lemma list_users_fits_70:
  assumes "\<forall>c\<in>set (clients s). length (c_name c) \<le> 31"
    and "length (filter c_alive (clients s)) \<le> 70"
  shows "listed_bytes s k < 4032"
proof -
  have "clients s = take k (clients s) @ drop k (clients s)"
    by simp
  then have "filter c_alive (clients s)
      = filter c_alive (take k (clients s)) @ filter c_alive (drop k (clients s))"
    by (metis filter_append)
  then have n: "length (filter c_alive (take k (clients s))) \<le> 70"
    using assms(2) by simp
  have "\<forall>c\<in>set (filter c_alive (take k (clients s))). length (user_line c) \<le> 57"
    using assms(1) by (auto simp: user_line_length dest: in_set_takeD)
  then have "length (concat (map user_line (filter c_alive (take k (clients s)))))
      \<le> 57 * length (filter c_alive (take k (clients s)))"
    by (rule concat_length_le)
  then show ?thesis
    using n by (simp add: listed_bytes_def list_header_def)
qed

lemma digit_char_in: "d < 10 \<Longrightarrow> digit_char d \<in> set ''0123456789''"
  unfolding digit_char_def by (rule nth_mem) simp

lemma dec_nat_digits: "set (dec_nat n) \<subseteq> set ''0123456789''"
proof (induction n rule: dec_nat.induct)
  case (1 n)
  show ?case
  proof (cases "n < 10")
    case True
    then show ?thesis
      using digit_char_in [of n] by (subst dec_nat.simps) simp
  next
    case False
    have "n mod 10 < 10"
      by simp
    then have "digit_char (n mod 10) \<in> set ''0123456789''"
      by (rule digit_char_in)
    then show ?thesis
      using False "1.IH" by (subst dec_nat.simps) simp
  qed
qed

lemma fmt_d64_no_newline: "CHR ''\<newline>'' \<notin> set (fmt_d64 w)"
  using dec_nat_digits [of "nat (sint w)"] dec_nat_digits [of "nat (- sint w)"]
  by (auto simp: fmt_d64_def)

lemma lines_from_line:
  "CHR ''\<newline>'' \<notin> set b \<Longrightarrow>
     lines_from cur (b @ CHR ''\<newline>'' # rest) = (cur @ b) # lines_from [] rest"
  by (induction b arbitrary: cur) auto

lemma lines_from_entries:
  assumes "\<forall>x\<in>set xs. CHR ''\<newline>'' \<notin> set (body x)"
  shows "lines_from [] (concat (map (\<lambda>x. body x @ [CHR ''\<newline>'']) xs) @ rest)
     = map body xs @ lines_from [] rest"
  using assms
proof (induction xs)
  case Nil
  then show ?case by simp
next
  case (Cons x xs)
  have "lines_from [] (body x @ CHR ''\<newline>'' # (concat (map (\<lambda>x. body x @ [CHR ''\<newline>'']) xs) @ rest))
      = ([] @ body x) # lines_from [] (concat (map (\<lambda>x. body x @ [CHR ''\<newline>'']) xs) @ rest)"
    using Cons.prems by (intro lines_from_line) simp
  then show ?case
    using Cons by simp
qed

lemma scan_stop_exists:
  "\<exists>k\<le>MAX_CLIENTS. (\<forall>j<k. listed_bytes s j < 4032) \<and> (k = MAX_CLIENTS \<or> 4032 \<le> listed_bytes s k)"
proof (cases "\<forall>j<MAX_CLIENTS. listed_bytes s j < 4032")
  case True
  then show ?thesis by auto
next
  case False
  then obtain j where j: "j < MAX_CLIENTS" "4032 \<le> listed_bytes s j"
    by (auto simp: not_less)
  let ?k = "LEAST j. 4032 \<le> listed_bytes s j"
  have "4032 \<le> listed_bytes s ?k"
    using j(2) by (rule LeastI)
  moreover have "?k \<le> j"
    using j(2) by (rule Least_le)
  moreover have "\<forall>i<?k. listed_bytes s i < 4032"
    using not_less_Least [of _ "\<lambda>j. 4032 \<le> listed_bytes s j"] by (auto simp: not_le)
  ultimately show ?thesis
    using j(1) by (intro exI [of _ ?k]) auto
qed

lemma full_length: "length (clients full_server) = MAX_CLIENTS"
  by (simp add: full_server_def)

text \<open>
  Claim C3, as the code has it. Let \<open>k\<close> be the first slot that the scan reaches with
  4032 or more bytes in the buffer, or \<^verbatim>\<open>MAX_CLIENTS\<close> when there is none
  (\<open>scan_stop_exists\<close>: there is always such a \<open>k\<close>; \<open>list_users_fits_70\<close>: it is
  \<^verbatim>\<open>MAX_CLIENTS\<close> as soon as at most 70 sessions are live). The listing is the header
  line, the entry \<^verbatim>\<open>ID:<id>  <name>\<close> with a line end for each live session among the
  first \<open>k\<close> slots, in table order, and the footer line, cut to the 4095 bytes the
  buffer holds; no dead slot and no session of slot \<open>k\<close> or later is in it, and it is
  sent in one piece to the requester and to nobody else. When every slot was scanned
  and the footer fits, this is the complete listing of the live sessions. When the
  footer fits and no listed name holds a line end, the lines of the output are the
  header, one line for each listed session, and the footer.
\<close>

theorem list_users_listing:
  assumes "length (clients s) = MAX_CLIENTS"
    and "\<forall>c\<in>set (clients s). length (c_name c) \<le> NAME_LEN - 1"
    and "k \<le> MAX_CLIENTS" and "\<forall>j<k. listed_bytes s j < 4032"
    and "k = MAX_CLIENTS \<or> 4032 \<le> listed_bytes s k"
  shows "list_users s fd =
       [Send fd (take 4095 (list_header
          @ concat (map user_line (filter c_alive (take k (clients s)))) @ list_footer))]
    \<and> (k = MAX_CLIENTS \<and> listed_bytes s k \<le> 4071 \<longrightarrow>
         list_users s fd =
           [Send fd (list_header @ concat (map user_line (filter c_alive (clients s))) @ list_footer)])
    \<and> (listed_bytes s k \<le> 4071
         \<and> (\<forall>c\<in>set (filter c_alive (take k (clients s))). CHR ''\<newline>'' \<notin> set (c_name c)) \<longrightarrow>
         split_lines (list_users_out s) =
           ''=== Connected Users ===''
           # map (\<lambda>c. ''ID:'' @ fmt_d64 (c_id c) @ ''  '' @ c_name c)
               (filter c_alive (take k (clients s)))
           @ [''=======================''])"
proof -
  let ?live = "filter c_alive (take k (clients s))"
  let ?lines = "concat (map user_line ?live)"
  have names: "\<forall>c\<in>set (clients s). length (c_name c) \<le> 31"
    using assms(2) by (simp add: NAME_LEN_def)
  have out: "list_users_out s = take 4095 (list_header @ ?lines @ list_footer)"
    using assms(1) names assms(3-5) by (rule list_users_out_eq)
  have ne: "take 4095 (list_header @ ?lines @ list_footer) \<noteq> []"
    by (simp add: list_header_def)
  have 1: "list_users s fd = [Send fd (take 4095 (list_header @ ?lines @ list_footer))]"
    using ne by (simp add: list_users_def send_all_def out)
  have whole: "take 4095 (list_header @ ?lines @ list_footer) = list_header @ ?lines @ list_footer"
    if "listed_bytes s k \<le> 4071"
    using that by (simp add: listed_bytes_def list_footer_def)
  have 2: "list_users s fd =
      [Send fd (list_header @ concat (map user_line (filter c_alive (clients s))) @ list_footer)]"
    if h: "k = MAX_CLIENTS \<and> listed_bytes s k \<le> 4071"
  proof -
    have tk: "take k (clients s) = clients s"
      using h assms(1) by simp
    have "list_users s fd = [Send fd (list_header @ ?lines @ list_footer)]"
      using 1 by (simp only: whole [OF h [THEN conjunct2]])
    then show ?thesis
      by (simp only: tk)
  qed
  have 3: "split_lines (list_users_out s) =
           ''=== Connected Users ===''
           # map (\<lambda>c. ''ID:'' @ fmt_d64 (c_id c) @ ''  '' @ c_name c) ?live
           @ [''======================='']"
    if h: "listed_bytes s k \<le> 4071 \<and> (\<forall>c\<in>set ?live. CHR ''\<newline>'' \<notin> set (c_name c))"
  proof -
    let ?body = "\<lambda>c. ''ID:'' @ fmt_d64 (c_id c) @ ''  '' @ c_name c"
    have ul: "user_line = (\<lambda>c. ?body c @ [CHR ''\<newline>''])"
      by (simp add: fun_eq_iff user_line_def)
    have nb: "\<forall>c\<in>set ?live. CHR ''\<newline>'' \<notin> set (?body c)"
      using h fmt_d64_no_newline by simp
    have e: "lines_from [] (concat (map (\<lambda>c. ?body c @ [CHR ''\<newline>'']) ?live) @ list_footer)
        = map ?body ?live @ lines_from [] list_footer"
      using nb by (rule lines_from_entries)
    have f: "lines_from [] list_footer = [''======================='']"
      by (simp add: list_footer_def)
    have "split_lines (list_users_out s) = lines_from [] (list_header @ ?lines @ list_footer)"
      by (simp only: split_lines_def out whole [OF h [THEN conjunct1]])
    also have "\<dots> = ''=== Connected Users ==='' # lines_from [] (?lines @ list_footer)"
      using lines_from_line [of "''=== Connected Users ===''" "[]" "?lines @ list_footer"]
      by (simp add: list_header_def)
    also have "lines_from [] (?lines @ list_footer) = map ?body ?live @ [''======================='']"
      unfolding ul e f ..
    finally show ?thesis .
  qed
  from 1 2 3 show ?thesis
    by blast
qed

theorem list_users_listing_witness:
  "list_users demo_server 4 =
     [Send 4 ''=== Connected Users ===\<newline>ID:1  Client-1\<newline>ID:2  Client-2\<newline>ID:3  Client-3\<newline>=======================\<newline>'']
   \<and> split_lines (list_users_out demo_server) =
     [''=== Connected Users ==='', ''ID:1  Client-1'', ''ID:2  Client-2'', ''ID:3  Client-3'',
      ''======================='']
   \<and> list_users full_server 4 =
     [Send 4 (take 4095 (list_header
        @ concat (map user_line (filter c_alive (take 103 (clients full_server)))) @ list_footer))]"
proof -
  have dn: "\<forall>c\<in>set (clients demo_server). length (c_name c) \<le> NAME_LEN - 1"
    by (simp add: demo_server_def zero_client_def NAME_LEN_def)
  have dl: "filter c_alive (clients demo_server) =
      [\<lparr>c_fd = 4, c_alive = True, c_id = 1, c_name = ''Client-1''\<rparr>,
       \<lparr>c_fd = 5, c_alive = True, c_id = 2, c_name = ''Client-2''\<rparr>,
       \<lparr>c_fd = 6, c_alive = True, c_id = 3, c_name = ''Client-3''\<rparr>]"
    by (simp add: demo_server_def zero_client_def)
  have tk: "take MAX_CLIENTS (clients demo_server) = clients demo_server"
    using demo_length by simp
  have db: "listed_bytes demo_server MAX_CLIENTS = 69"
    by (simp add: listed_bytes_def tk dl user_line_def fmt_d64_small list_header_def)
  have dbefore: "\<forall>j<MAX_CLIENTS. listed_bytes demo_server j < 4032"
  proof (intro allI impI)
    fix j assume "j < MAX_CLIENTS"
    then have "listed_bytes demo_server j \<le> listed_bytes demo_server MAX_CLIENTS"
      by (intro listed_bytes_mono) simp
    then show "listed_bytes demo_server j < 4032"
      by (simp add: db)
  qed
  note d = list_users_listing [OF demo_length dn le_refl dbefore disjI1 [OF refl], of 4]
  have d1: "list_users demo_server 4 =
     [Send 4 ''=== Connected Users ===\<newline>ID:1  Client-1\<newline>ID:2  Client-2\<newline>ID:3  Client-3\<newline>=======================\<newline>'']"
    using d [THEN conjunct2, THEN conjunct1] db
    by (simp add: dl user_line_def fmt_d64_small list_header_def list_footer_def)
  have d2: "split_lines (list_users_out demo_server) =
     [''=== Connected Users ==='', ''ID:1  Client-1'', ''ID:2  Client-2'', ''ID:3  Client-3'',
      ''======================='']"
    using d [THEN conjunct2, THEN conjunct2] db
    by (simp add: tk dl fmt_d64_small)
  have fn: "\<forall>c\<in>set (clients full_server). length (c_name c) \<le> NAME_LEN - 1"
    by (simp add: full_server_def NAME_LEN_def)
  have k: "103 \<le> MAX_CLIENTS"
    by (simp add: MAX_CLIENTS_def)
  have b102: "listed_bytes full_server 102 = 3996"
    by code_simp
  have b103: "listed_bytes full_server 103 = 4036"
    by code_simp
  have fbefore: "\<forall>j<103. listed_bytes full_server j < 4032"
  proof (intro allI impI)
    fix j :: nat assume "j < 103"
    then have "listed_bytes full_server j \<le> listed_bytes full_server 102"
      by (intro listed_bytes_mono) simp
    then show "listed_bytes full_server j < 4032"
      by (simp add: b102)
  qed
  have stop: "103 = MAX_CLIENTS \<or> 4032 \<le> listed_bytes full_server 103"
    by (simp add: b103)
  note f = list_users_listing [OF full_length fn k fbefore stop, of 4, THEN conjunct1]
  from d1 d2 f show ?thesis
    by (intro conjI)
qed

text \<open>
  The claim as the specification states it fails: the loop of \<^verbatim>\<open>list_users\<close> also stops
  when \<^verbatim>\<open>pos + 64\<close> reaches the size of the buffer, and the buffer holds at most 4095
  bytes. With 128 live sessions whose names have 31 bytes, the complete listing would
  take more than that, so sessions are left out.
\<close>

theorem list_users_full_counterexample:
  "list_users full_server 4 \<noteq>
     [Send 4 (list_header @ concat (map user_line (filter c_alive (clients full_server))) @ list_footer)]"
proof -
  let ?f = "\<lambda>i. \<lparr>c_fd = 4 + int i, c_alive = True, c_id = word_of_nat (Suc i) :: int64_t,
                          c_name = replicate 31 (CHR ''A'')\<rparr>"
  have cl: "filter c_alive (clients full_server) = map ?f [0..<MAX_CLIENTS]"
    by (simp add: full_server_def)
  have "\<forall>i\<in>set [0..<MAX_CLIENTS]. 37 \<le> length (user_line (?f i))"
    by (simp add: user_line_def)
  then have "37 * length [0..<MAX_CLIENTS] \<le> length (concat (map (\<lambda>i. user_line (?f i)) [0..<MAX_CLIENTS]))"
    by (rule concat_length_ge)
  then have "4736 \<le> length (concat (map user_line (filter c_alive (clients full_server))))"
    unfolding cl by (simp add: MAX_CLIENTS_def comp_def)
  then have "4095 < length (list_header @ concat (map user_line (filter c_alive (clients full_server))) @ list_footer)"
    by simp
  then have "list_users_out full_server \<noteq>
      list_header @ concat (map user_line (filter c_alive (clients full_server))) @ list_footer"
    using list_users_out_length [of full_server] by auto
  then show ?thesis
    by (simp add: list_users_def send_all_def)
qed

end
